theory Spec2Isabelle
  imports Main "HOL-Library.Char_ord" "HOL-Library.List_Lexorder"
begin

section \<open>Strings, dictionaries and sets of the source\<close>

text \<open>
  A Python \<open>str\<close> is modelled by the list of the bytes of its UTF-8 encoding. The encoding
  is injective and keeps the order of code points, so equality and \<open>sorted\<close> agree with
  Python's. \<open>str.lower\<close> is only ever compared with the ASCII word \<open>epsilon\<close>; no code
  point outside ASCII lowers to one of its letters, so lowering the ASCII capitals and
  leaving every other byte alone decides that comparison as Python does.
\<close>

definition lower_char :: "char \<Rightarrow> char" where
  "lower_char c =
     (case map_of (zip ''ABCDEFGHIJKLMNOPQRSTUVWXYZ'' ''abcdefghijklmnopqrstuvwxyz'') c of
        None \<Rightarrow> c
      | Some l \<Rightarrow> l)"

definition lower :: "string \<Rightarrow> string" where
  "lower s = map lower_char s"

text \<open>The decimal numeral that an f-string prints for a non-negative integer.\<close>

definition digit_char :: "nat \<Rightarrow> char" where
  "digit_char d = char_of (48 + d)"

fun decimal :: "nat \<Rightarrow> string" where
  "decimal n = (if n < 10 then [digit_char n] else decimal (n div 10) @ [digit_char (n mod 10)])"

declare decimal.simps [simp del]

text \<open>\<open>f"S{i}"\<close>\<close>

definition state_name_of :: "nat \<Rightarrow> string" where
  "state_name_of i = ''S'' @ decimal i"

text \<open>
  A \<open>dict\<close> is an association list in insertion order. \<open>d[k]\<close> and \<open>k in d\<close> are
  \<open>map_of d k\<close>; \<open>d[k] = v\<close> is \<open>dict_set\<close>, which keeps the place of a key that is
  already there and appends a new one. A list may repeat a key, which a \<open>dict\<close> cannot:
  \<open>items\<close> enumerates every key once, with the value that lookup returns, and is the
  identity on a list without repeated keys.
\<close>

fun dict_set :: "('k \<times> 'v) list \<Rightarrow> 'k \<Rightarrow> 'v \<Rightarrow> ('k \<times> 'v) list" where
  "dict_set [] k v = [(k, v)]"
| "dict_set ((k', v') # d) k v = (if k' = k then (k', v) # d else (k', v') # dict_set d k v)"

fun items :: "('k \<times> 'v) list \<Rightarrow> ('k \<times> 'v) list" where
  "items [] = []"
| "items ((k, v) # d) = (k, v) # items (filter (\<lambda>kv. fst kv \<noteq> k) d)"

definition keys :: "('k \<times> 'v) list \<Rightarrow> 'k list" where
  "keys d = map fst (items d)"

text \<open>
  A Python \<open>set\<close> is a HOL set. The language does not fix the order in which \<open>list(s)\<close>,
  \<open>iter(s)\<close> and a \<open>for\<close> loop enumerate a set (for strings it changes with the hash seed
  of the process), so the order is a parameter \<open>ord\<close> of every function that enumerates a
  set into a list. \<open>py_list\<close> uses \<open>ord s\<close> where it is an enumeration of \<open>s\<close> without
  repetition and the sorted order otherwise, so that every value of the parameter stands
  for a legal enumeration order.
\<close>

type_synonym order = "string set \<Rightarrow> string list"

definition py_list :: "order \<Rightarrow> string set \<Rightarrow> string list" where
  "py_list ord s = (if set (ord s) = s \<and> distinct (ord s) then ord s else sorted_list_of_set s)"

section \<open>The automaton model\<close>

text \<open>
  Classes \<open>NFA\<close> (NFA\_Deserializer.py) and \<open>DFA\<close> (DFA\_Builder.py) have the same four
  fields; they differ in what a transition stores: a list of targets for the NFA, one
  target for the DFA. \<open>start_state\<close> is \<open>None\<close> in a fresh \<open>DFA()\<close>.
\<close>

record 't automaton =
  start_state :: "string option"
  states :: "string set"
  final_states :: "string set"
  transitions :: "(string \<times> (string \<times> 't) list) list"

type_synonym nfa = "string list automaton"
type_synonym dfa = "string automaton"

definition NFA :: "string option \<Rightarrow> nfa" where
  "NFA start = \<lparr>start_state = start, states = {}, final_states = {}, transitions = []\<rparr>"

definition DFA :: dfa where
  "DFA = \<lparr>start_state = None, states = {}, final_states = {}, transitions = []\<rparr>"

text \<open>\<open>add_state\<close> has the same body in both classes.\<close>

definition add_state :: "'t automaton \<Rightarrow> string \<Rightarrow> bool \<Rightarrow> 't automaton" where
  "add_state a state_name is_final =
     a\<lparr>states := insert state_name (states a),
       final_states := (if is_final then insert state_name (final_states a) else final_states a),
       transitions := (if map_of (transitions a) state_name = None
                       then dict_set (transitions a) state_name []
                       else transitions a)\<rparr>"

text \<open>
  \<open>NFA.add_transition\<close>: the row of \<open>from_state\<close> and the target list of \<open>symbol\<close> are
  created when missing, and \<open>to_state\<close> is appended unless the list has it already. The
  source mutates the nested containers in place; the model writes the new row back.
\<close>

definition nfa_add_transition :: "nfa \<Rightarrow> string \<Rightarrow> string \<Rightarrow> string \<Rightarrow> nfa" where
  "nfa_add_transition a from_state symbol to_state =
     (let row = (case map_of (transitions a) from_state of None \<Rightarrow> [] | Some r \<Rightarrow> r);
          targets = (case map_of row symbol of None \<Rightarrow> [] | Some ts \<Rightarrow> ts);
          targets' = (if to_state \<in> set targets then targets else targets @ [to_state])
      in a\<lparr>transitions := dict_set (transitions a) from_state (dict_set row symbol targets')\<rparr>)"

text \<open>\<open>DFA.add_transition\<close> overwrites the target of \<open>(from_state, symbol)\<close>.\<close>

definition dfa_add_transition :: "dfa \<Rightarrow> string \<Rightarrow> string \<Rightarrow> string \<Rightarrow> dfa" where
  "dfa_add_transition a from_state symbol to_state =
     (let row = (case map_of (transitions a) from_state of None \<Rightarrow> [] | Some r \<Rightarrow> r)
      in a\<lparr>transitions := dict_set (transitions a) from_state (dict_set row symbol to_state)\<rparr>)"

text \<open>Sequences of calls on one instance.\<close>

datatype call = AddState string bool | AddTransition string string string

fun nfa_call :: "nfa \<Rightarrow> call \<Rightarrow> nfa" where
  "nfa_call a (AddState n f) = add_state a n f"
| "nfa_call a (AddTransition p s q) = nfa_add_transition a p s q"

fun dfa_call :: "dfa \<Rightarrow> call \<Rightarrow> dfa" where
  "dfa_call a (AddState n f) = add_state a n f"
| "dfa_call a (AddTransition p s q) = dfa_add_transition a p s q"

fun declared :: "call list \<Rightarrow> string set" where
  "declared [] = {}"
| "declared (AddState n f # cs) = insert n (declared cs)"
| "declared (AddTransition p s q # cs) = declared cs"

fun referenced :: "call list \<Rightarrow> string set" where
  "referenced [] = {}"
| "referenced (AddState n f # cs) = referenced cs"
| "referenced (AddTransition p s q # cs) = insert p (insert q (referenced cs))"

text \<open>The states a transition table mentions: its row keys and its targets.\<close>

definition sources :: "'t automaton \<Rightarrow> string set" where
  "sources a = fst ` set (transitions a)"

definition nfa_targets :: "nfa \<Rightarrow> string set" where
  "nfa_targets a = (\<Union>row \<in> snd ` set (transitions a). \<Union>ts \<in> snd ` set row. set ts)"

definition dfa_targets :: "dfa \<Rightarrow> string set" where
  "dfa_targets a = (\<Union>row \<in> snd ` set (transitions a). snd ` set row)"

section \<open>Facts about dictionaries\<close>

lemma map_of_dict_set: "map_of (dict_set d k v) = (map_of d)(k \<mapsto> v)"
  by (induction d) (auto simp: fun_eq_iff)

lemma set_dict_set: "set (dict_set d k v) \<subseteq> insert (k, v) (set d)"
  by (induction d) (auto split: if_splits)

lemma fst_set_dict_set: "fst ` set (dict_set d k v) = insert k (fst ` set d)"
proof (induction d)
  case Nil
  show ?case by simp
next
  case (Cons kv d)
  obtain k' v' where kv: "kv = (k', v')" by (cases kv)
  show ?case
  proof (cases "k' = k")
    case True
    then show ?thesis by (simp add: kv)
  next
    case False
    then show ?thesis using Cons.IH by (simp add: kv insert_commute)
  qed
qed

lemma map_of_in_set: "map_of d k = Some v \<Longrightarrow> (k, v) \<in> set d"
  by (rule map_of_SomeD)

section \<open>Sticky finality and declared references\<close>

lemma final_states_nfa_call: "final_states a \<subseteq> final_states (nfa_call a c)"
  by (cases c) (auto simp: add_state_def nfa_add_transition_def Let_def)

lemma final_states_dfa_call: "final_states a \<subseteq> final_states (dfa_call a c)"
  by (cases c) (auto simp: add_state_def dfa_add_transition_def Let_def)

lemma final_states_nfa_calls: "final_states a \<subseteq> final_states (foldl nfa_call a cs)"
proof (induction cs arbitrary: a)
  case Nil
  show ?case by simp
next
  case (Cons c cs)
  have "final_states a \<subseteq> final_states (nfa_call a c)" by (rule final_states_nfa_call)
  also have "\<dots> \<subseteq> final_states (foldl nfa_call (nfa_call a c) cs)" by (rule Cons.IH)
  finally show ?case by simp
qed

lemma final_states_dfa_calls: "final_states a \<subseteq> final_states (foldl dfa_call a cs)"
proof (induction cs arbitrary: a)
  case Nil
  show ?case by simp
next
  case (Cons c cs)
  have "final_states a \<subseteq> final_states (dfa_call a c)" by (rule final_states_dfa_call)
  also have "\<dots> \<subseteq> final_states (foldl dfa_call (dfa_call a c) cs)" by (rule Cons.IH)
  finally show ?case by simp
qed

lemma add_state_keeps_row:
  "map_of (transitions a) q = Some row \<Longrightarrow> map_of (transitions (add_state a n b)) q = Some row"
  by (auto simp: add_state_def map_of_dict_set)

text \<open>
  C10. Once \<open>add_state(n, True)\<close> has run on an NFA or a DFA, \<open>n\<close> is still final after any
  further calls followed by \<open>add_state(n, False)\<close>; and \<open>add_state\<close> on either model never
  removes a state from \<open>states\<close> and leaves every recorded row of the transition table as
  it was.
\<close>

theorem finality_is_sticky:
  fixes a :: nfa and d :: dfa
  shows "n \<in> final_states (add_state (foldl nfa_call (add_state a n True) cs) n False)
       \<and> n \<in> final_states (add_state (foldl dfa_call (add_state d n True) ds) n False)
       \<and> states a \<subseteq> states (add_state a m b)
       \<and> states d \<subseteq> states (add_state d m b)
       \<and> (\<forall>q row. map_of (transitions a) q = Some row
             \<longrightarrow> map_of (transitions (add_state a m b)) q = Some row)
       \<and> (\<forall>q row. map_of (transitions d) q = Some row
             \<longrightarrow> map_of (transitions (add_state d m b)) q = Some row)"
proof -
  have "n \<in> final_states (add_state a n True)" by (simp add: add_state_def)
  then have 1: "n \<in> final_states (foldl nfa_call (add_state a n True) cs)"
    using final_states_nfa_calls by blast
  have "n \<in> final_states (add_state d n True)" by (simp add: add_state_def)
  then have 2: "n \<in> final_states (foldl dfa_call (add_state d n True) ds)"
    using final_states_dfa_calls by blast
  from 1 2 show ?thesis
    by (auto simp: add_state_keeps_row) (auto simp: add_state_def)
qed


definition example_nfa :: nfa where
  "example_nfa = nfa_add_transition (add_state (NFA (Some ''A'')) ''A'' True) ''A'' ''x'' ''B''"

theorem finality_is_sticky_witness:
  "map_of (transitions example_nfa) ''A'' = Some [(''x'', [''B''])]
   \<and> map_of (transitions (add_state example_nfa ''A'' False)) ''A'' = Some [(''x'', [''B''])]
   \<and> ''A'' \<in> final_states (add_state (foldl nfa_call (add_state example_nfa ''A'' True) []) ''A'' False)"
proof -
  have h: "map_of (transitions example_nfa) ''A'' = Some [(''x'', [''B''])]"
    by (simp add: example_nfa_def NFA_def add_state_def nfa_add_transition_def)
  from finality_is_sticky [of "''A''" example_nfa "[]" DFA "[]" "''A''" False] h
  show ?thesis by blast
qed

lemma states_nfa_call: "states (nfa_call a c) = states a \<union> declared [c]"
  by (cases c) (auto simp: add_state_def nfa_add_transition_def Let_def)

lemma states_dfa_call: "states (dfa_call a c) = states a \<union> declared [c]"
  by (cases c) (auto simp: add_state_def dfa_add_transition_def Let_def)

lemma declared_Cons: "declared (c # cs) = declared [c] \<union> declared cs"
  by (cases c) auto

lemma referenced_Cons: "referenced (c # cs) = referenced [c] \<union> referenced cs"
  by (cases c) auto

lemma states_nfa_calls: "states (foldl nfa_call a cs) = states a \<union> declared cs"
proof (induction cs arbitrary: a)
  case Nil
  show ?case by simp
next
  case (Cons c cs)
  show ?case
    using Cons.IH [of "nfa_call a c"] states_nfa_call [of a c] declared_Cons [of c cs]
    by auto
qed

lemma states_dfa_calls: "states (foldl dfa_call a cs) = states a \<union> declared cs"
proof (induction cs arbitrary: a)
  case Nil
  show ?case by simp
next
  case (Cons c cs)
  show ?case
    using Cons.IH [of "dfa_call a c"] states_dfa_call [of a c] declared_Cons [of c cs]
    by auto
qed

lemma sources_add_state: "sources (add_state a n f) \<subseteq> insert n (sources a)"
  by (auto simp: sources_def add_state_def fst_set_dict_set)

lemma sources_nfa_add_transition: "sources (nfa_add_transition a p s q) = insert p (sources a)"
  by (simp add: sources_def nfa_add_transition_def Let_def fst_set_dict_set)

lemma sources_dfa_add_transition: "sources (dfa_add_transition a p s q) = insert p (sources a)"
  by (simp add: sources_def dfa_add_transition_def Let_def fst_set_dict_set)

lemma in_set_dict_set: "(k', v') \<in> set (dict_set d k v) \<Longrightarrow> (k' = k \<and> v' = v) \<or> (k', v') \<in> set d"
  using set_dict_set [of d k v] by auto

lemma nfa_targets_iff:
  "x \<in> nfa_targets a \<longleftrightarrow>
     (\<exists>p row s ts. (p, row) \<in> set (transitions a) \<and> (s, ts) \<in> set row \<and> x \<in> set ts)"
  unfolding nfa_targets_def by force

lemma dfa_targets_iff:
  "x \<in> dfa_targets a \<longleftrightarrow> (\<exists>p row s. (p, row) \<in> set (transitions a) \<and> (s, x) \<in> set row)"
  unfolding dfa_targets_def by force

lemma nfa_targets_add_state: "nfa_targets (add_state a n f) \<subseteq> nfa_targets a"
proof
  fix x
  assume "x \<in> nfa_targets (add_state a n f)"
  then obtain p row s ts where
    p: "(p, row) \<in> set (transitions (add_state a n f))" and s: "(s, ts) \<in> set row" "x \<in> set ts"
    unfolding nfa_targets_iff by blast
  from p have "(p, row) \<in> set (transitions a) \<or> row = []"
    by (auto simp: add_state_def split: if_splits dest: in_set_dict_set)
  with s show "x \<in> nfa_targets a"
    unfolding nfa_targets_iff by auto
qed

lemma dfa_targets_add_state: "dfa_targets (add_state a n f) \<subseteq> dfa_targets a"
proof
  fix x
  assume "x \<in> dfa_targets (add_state a n f)"
  then obtain p row s where
    p: "(p, row) \<in> set (transitions (add_state a n f))" and s: "(s, x) \<in> set row"
    unfolding dfa_targets_iff by blast
  from p have "(p, row) \<in> set (transitions a) \<or> row = []"
    by (auto simp: add_state_def split: if_splits dest: in_set_dict_set)
  with s show "x \<in> dfa_targets a"
    unfolding dfa_targets_iff by auto
qed

lemma nfa_targets_add_transition:
  "nfa_targets (nfa_add_transition a p s q) \<subseteq> insert q (nfa_targets a)"
proof
  fix x
  define row where "row = (case map_of (transitions a) p of None \<Rightarrow> [] | Some r \<Rightarrow> r)"
  define targets where "targets = (case map_of row s of None \<Rightarrow> [] | Some ts \<Rightarrow> ts)"
  define targets' where "targets' = (if q \<in> set targets then targets else targets @ [q])"
  have tr: "transitions (nfa_add_transition a p s q)
      = dict_set (transitions a) p (dict_set row s targets')"
    unfolding nfa_add_transition_def Let_def row_def targets_def targets'_def
    by (simp split del: if_split)
  assume "x \<in> nfa_targets (nfa_add_transition a p s q)"
  then obtain r e c ts where r: "(r, e) \<in> set (dict_set (transitions a) p (dict_set row s targets'))"
    and e: "(c, ts) \<in> set e" and x: "x \<in> set ts"
    unfolding nfa_targets_iff tr by blast
  have row_in: "y \<in> nfa_targets a" if "(c', us) \<in> set row" "y \<in> set us" for y c' us
  proof (cases "map_of (transitions a) p")
    case None
    with that show ?thesis by (simp add: row_def)
  next
    case (Some r')
    then have "(p, row) \<in> set (transitions a)" by (simp add: row_def map_of_SomeD)
    with that show ?thesis unfolding nfa_targets_iff by blast
  qed
  have targets_in: "y \<in> nfa_targets a" if "y \<in> set targets" for y
  proof (cases "map_of row s")
    case None
    with that show ?thesis by (simp add: targets_def)
  next
    case (Some us)
    then have "(s, targets) \<in> set row" by (simp add: targets_def map_of_SomeD)
    with that row_in show ?thesis by blast
  qed
  from in_set_dict_set [OF r]
  consider "(r, e) \<in> set (transitions a)" | "e = dict_set row s targets'" by auto
  then show "x \<in> insert q (nfa_targets a)"
  proof cases
    case 1
    with e x have "x \<in> nfa_targets a" unfolding nfa_targets_iff by blast
    then show ?thesis by simp
  next
    case 2
    with e in_set_dict_set [of c ts row s targets']
    consider "(c, ts) \<in> set row" | "ts = targets'" by auto
    then show ?thesis
    proof cases
      case 1
      with x row_in show ?thesis by blast
    next
      case 2
      with x targets_in show ?thesis by (auto simp: targets'_def split: if_splits)
    qed
  qed
qed

lemma dfa_targets_add_transition:
  "dfa_targets (dfa_add_transition a p s q) \<subseteq> insert q (dfa_targets a)"
proof
  fix x
  define row where "row = (case map_of (transitions a) p of None \<Rightarrow> [] | Some r \<Rightarrow> r)"
  have tr: "transitions (dfa_add_transition a p s q) = dict_set (transitions a) p (dict_set row s q)"
    by (simp add: dfa_add_transition_def Let_def row_def)
  assume "x \<in> dfa_targets (dfa_add_transition a p s q)"
  then obtain r e c where r: "(r, e) \<in> set (dict_set (transitions a) p (dict_set row s q))"
    and x: "(c, x) \<in> set e"
    unfolding dfa_targets_iff tr by blast
  have row_in: "y \<in> dfa_targets a" if "(c', y) \<in> set row" for y c'
  proof (cases "map_of (transitions a) p")
    case None
    with that show ?thesis by (simp add: row_def)
  next
    case (Some r')
    then have "(p, row) \<in> set (transitions a)" by (simp add: row_def map_of_SomeD)
    with that show ?thesis unfolding dfa_targets_iff by blast
  qed
  from in_set_dict_set [OF r]
  consider "(r, e) \<in> set (transitions a)" | "e = dict_set row s q" by auto
  then show "x \<in> insert q (dfa_targets a)"
  proof cases
    case 1
    with x have "x \<in> dfa_targets a" unfolding dfa_targets_iff by blast
    then show ?thesis by simp
  next
    case 2
    with x in_set_dict_set [of c x row s q] row_in show ?thesis by auto
  qed
qed

lemma nfa_call_closed:
  "sources (nfa_call a c) \<subseteq> sources a \<union> declared [c] \<union> referenced [c]
   \<and> nfa_targets (nfa_call a c) \<subseteq> nfa_targets a \<union> referenced [c]"
proof (cases c)
  case (AddState n f)
  with sources_add_state [of a n f] nfa_targets_add_state [of a n f] show ?thesis by auto
next
  case (AddTransition p s q)
  with nfa_targets_add_transition [of a p s q] show ?thesis
    by (auto simp: sources_nfa_add_transition)
qed

lemma dfa_call_closed:
  "sources (dfa_call a c) \<subseteq> sources a \<union> declared [c] \<union> referenced [c]
   \<and> dfa_targets (dfa_call a c) \<subseteq> dfa_targets a \<union> referenced [c]"
proof (cases c)
  case (AddState n f)
  with sources_add_state [of a n f] dfa_targets_add_state [of a n f] show ?thesis by auto
next
  case (AddTransition p s q)
  with dfa_targets_add_transition [of a p s q] show ?thesis
    by (auto simp: sources_dfa_add_transition)
qed

lemma nfa_calls_closed:
  "sources (foldl nfa_call a cs) \<subseteq> sources a \<union> declared cs \<union> referenced cs
   \<and> nfa_targets (foldl nfa_call a cs) \<subseteq> nfa_targets a \<union> referenced cs"
proof (induction cs arbitrary: a)
  case Nil
  show ?case by simp
next
  case (Cons c cs)
  show ?case
    using Cons.IH [of "nfa_call a c"] nfa_call_closed [of a c]
      declared_Cons [of c cs] referenced_Cons [of c cs]
    by (simp del: declared.simps referenced.simps nfa_call.simps) blast
qed

lemma dfa_calls_closed:
  "sources (foldl dfa_call a cs) \<subseteq> sources a \<union> declared cs \<union> referenced cs
   \<and> dfa_targets (foldl dfa_call a cs) \<subseteq> dfa_targets a \<union> referenced cs"
proof (induction cs arbitrary: a)
  case Nil
  show ?case by simp
next
  case (Cons c cs)
  show ?case
    using Cons.IH [of "dfa_call a c"] dfa_call_closed [of a c]
      declared_Cons [of c cs] referenced_Cons [of c cs]
    by (simp del: declared.simps referenced.simps dfa_call.simps) blast
qed

text \<open>
  C5. Take any sequence of \<open>add_state\<close> and \<open>add_transition\<close> calls on a fresh NFA or DFA
  in which every state that some \<open>add_transition\<close> names, as source or as target, is
  declared by an \<open>add_state\<close> somewhere in the sequence, before or after. Then every row
  key and every target of the resulting transition table is a member of \<open>states\<close>.
\<close>

theorem declared_references:
  assumes "referenced cs \<subseteq> declared cs"
  shows "sources (foldl nfa_call (NFA start) cs) \<subseteq> states (foldl nfa_call (NFA start) cs)
       \<and> nfa_targets (foldl nfa_call (NFA start) cs) \<subseteq> states (foldl nfa_call (NFA start) cs)
       \<and> sources (foldl dfa_call DFA cs) \<subseteq> states (foldl dfa_call DFA cs)
       \<and> dfa_targets (foldl dfa_call DFA cs) \<subseteq> states (foldl dfa_call DFA cs)"
proof -
  have n0: "sources (NFA start) = {}" "nfa_targets (NFA start) = {}"
    by (simp_all add: sources_def nfa_targets_def NFA_def)
  have d0: "sources DFA = {}" "dfa_targets DFA = {}"
    by (simp_all add: sources_def dfa_targets_def DFA_def)
  from nfa_calls_closed [of "NFA start" cs] dfa_calls_closed [of DFA cs] assms
  show ?thesis
    unfolding states_nfa_calls states_dfa_calls n0 d0 by blast
qed

definition example_calls :: "call list" where
  "example_calls =
     [AddTransition ''S0'' ''a'' ''S1'', AddState ''S0'' False, AddState ''S1'' True,
      AddTransition ''S0'' ''a'' ''S0'']"

theorem declared_references_witness:
  "referenced example_calls \<subseteq> declared example_calls
   \<and> sources (foldl nfa_call (NFA (Some ''S0'')) example_calls) = {''S0'', ''S1''}
   \<and> nfa_targets (foldl nfa_call (NFA (Some ''S0'')) example_calls)
       \<subseteq> states (foldl nfa_call (NFA (Some ''S0'')) example_calls)
   \<and> dfa_targets (foldl dfa_call DFA example_calls)
       \<subseteq> states (foldl dfa_call DFA example_calls)"
proof -
  have h: "referenced example_calls \<subseteq> declared example_calls"
    by (simp add: example_calls_def)
  have s: "sources (foldl nfa_call (NFA (Some ''S0'')) example_calls) = {''S0'', ''S1''}"
    by (simp add: example_calls_def sources_def NFA_def add_state_def nfa_add_transition_def)
  from declared_references [OF h, of "Some ''S0''"] h s show ?thesis by blast
qed

section \<open>Epsilon closure\<close>

text \<open>
  The test that \<open>get_epsilon_closure\<close> applies to a transition symbol. The last two
  disjuncts are the UTF-8 bytes of U+00CE U+00B5 and of U+03B5.
\<close>

definition is_epsilon_label :: "string \<Rightarrow> bool" where
  "is_epsilon_label symbol \<longleftrightarrow>
     symbol = '''' \<or> lower symbol = ''epsilon''
     \<or> symbol = [CHR 0xC3, CHR 0x8E, CHR 0xC2, CHR 0xB5] \<or> symbol = [CHR 0xCE, CHR 0xB5]"

text \<open>
  \<open>get_epsilon_closure\<close>: the work list is a stack whose top is the head of the list
  (\<open>stack.pop()\<close> takes the last element of the Python list, \<open>append\<close> adds after it).
  \<open>visit_targets\<close> is the loop over \<open>targets\<close>, \<open>visit_row\<close> the loop over the
  \<open>items()\<close> of the row of the popped state, \<open>closure_loop\<close> the \<open>while stack\<close> loop.
\<close>

fun visit_targets :: "string list \<Rightarrow> string list \<times> string set \<Rightarrow> string list \<times> string set" where
  "visit_targets [] (stack, closure) = (stack, closure)"
| "visit_targets (next_state # targets) (stack, closure) =
     (if next_state \<notin> closure
      then visit_targets targets (next_state # stack, insert next_state closure)
      else visit_targets targets (stack, closure))"

fun visit_row :: "(string \<times> string list) list \<Rightarrow> string list \<times> string set \<Rightarrow> string list \<times> string set" where
  "visit_row [] sc = sc"
| "visit_row ((symbol, targets) # row) sc =
     (if is_epsilon_label symbol then visit_row row (visit_targets targets sc) else visit_row row sc)"

definition epsilon_targets :: "(string \<times> string list) list \<Rightarrow> string set" where
  "epsilon_targets row = (\<Union>(symbol, targets) \<in> set row. if is_epsilon_label symbol then set targets else {})"

lemma visit_targets_spec:
  "\<exists>new. visit_targets ts (st, cl) = (new @ st, cl \<union> set ts) \<and> set new = set ts - cl"
proof (induction ts arbitrary: st cl)
  case Nil
  show ?case by simp
next
  case (Cons t ts)
  show ?case
  proof (cases "t \<in> cl")
    case True
    with Cons.IH [of st cl] show ?thesis by auto
  next
    case False
    from Cons.IH [of "t # st" "insert t cl"] obtain new where
      "visit_targets ts (t # st, insert t cl) = (new @ t # st, insert t cl \<union> set ts)"
      "set new = set ts - insert t cl" by blast
    with False show ?thesis
      by (intro exI [of _ "new @ [t]"]) auto
  qed
qed

lemma visit_row_spec:
  "\<exists>new. visit_row row (st, cl) = (new @ st, cl \<union> epsilon_targets row)
     \<and> set new = epsilon_targets row - cl"
proof (induction row arbitrary: st cl)
  case Nil
  show ?case by (simp add: epsilon_targets_def)
next
  case (Cons e row)
  obtain symbol targets where e: "e = (symbol, targets)" by (cases e)
  show ?case
  proof (cases "is_epsilon_label symbol")
    case False
    with Cons.IH [of st cl] show ?thesis by (simp add: e epsilon_targets_def)
  next
    case True
    from visit_targets_spec [of targets st cl] obtain n1 where
      n1: "visit_targets targets (st, cl) = (n1 @ st, cl \<union> set targets)" "set n1 = set targets - cl"
      by blast
    from Cons.IH [of "n1 @ st" "cl \<union> set targets"] obtain n2 where
      n2: "visit_row row (n1 @ st, cl \<union> set targets)
             = (n2 @ n1 @ st, cl \<union> set targets \<union> epsilon_targets row)"
          "set n2 = epsilon_targets row - (cl \<union> set targets)"
      by blast
    have et: "epsilon_targets ((symbol, targets) # row) = set targets \<union> epsilon_targets row"
      using True by (simp add: epsilon_targets_def)
    from True n1 n2 show ?thesis
      unfolding e et by (intro exI [of _ "n2 @ n1"]) auto
  qed
qed

lemma set_items_subset: "set (items d) \<subseteq> set d"
proof (induction d rule: items.induct)
  case 1
  show ?case by simp
next
  case (2 k v d)
  then show ?case by auto
qed

lemma map_of_items: "map_of (items d) = map_of d"
proof (induction d rule: items.induct)
  case 1
  show ?case by simp
next
  case (2 k v d)
  have "map_of (filter (\<lambda>kv. fst kv \<noteq> k) d) x = map_of d x" if "x \<noteq> k" for x
    using that by (induction d) auto
  with 2 show ?case by (auto simp: fun_eq_iff)
qed

lemma distinct_items: "distinct (map fst (items d))"
proof (induction d rule: items.induct)
  case 1
  show ?case by simp
next
  case (2 k v d)
  have "k \<notin> fst ` set (items (filter (\<lambda>kv. fst kv \<noteq> k) d))"
    using set_items_subset [of "filter (\<lambda>kv. fst kv \<noteq> k) d"] by auto
  with 2 show ?case by simp
qed

lemma in_items_iff: "(k, v) \<in> set (items d) \<longleftrightarrow> map_of d k = Some v"
  using map_of_eq_Some_iff [OF distinct_items, of d k v] by (simp add: map_of_items)

lemma items_distinct_id: "distinct (map fst d) \<Longrightarrow> items d = d"
proof (induction d rule: items.induct)
  case 1
  show ?case by simp
next
  case (2 k v d)
  then have "filter (\<lambda>kv. fst kv \<noteq> k) d = d"
    by (auto simp: filter_id_conv)
  with 2 show ?case by simp
qed

lemma finite_nfa_targets: "finite (nfa_targets a)"
  by (simp add: nfa_targets_def)

lemma epsilon_targets_subset:
  assumes "map_of (transitions a) q = Some row"
  shows "epsilon_targets (items row) \<subseteq> nfa_targets a"
proof
  fix x
  assume "x \<in> epsilon_targets (items row)"
  then obtain s ts where "(s, ts) \<in> set (items row)" "x \<in> set ts"
    by (auto simp: epsilon_targets_def split: if_splits)
  moreover from assms have "(q, row) \<in> set (transitions a)" by (rule map_of_SomeD)
  ultimately show "x \<in> nfa_targets a"
    using set_items_subset [of row] unfolding nfa_targets_iff by blast
qed

function closure_loop :: "nfa \<Rightarrow> string list \<times> string set \<Rightarrow> string set" where
  "closure_loop nfa ([], closure) = closure"
| "closure_loop nfa (current_state # stack, closure) =
     (case map_of (transitions nfa) current_state of
        None \<Rightarrow> closure_loop nfa (stack, closure)
      | Some row \<Rightarrow> closure_loop nfa (visit_row (items row) (stack, closure)))"
  by pat_completeness auto

termination
proof (relation "inv_image (less_than <*lex*> less_than)
    (\<lambda>(nfa, stack, closure). (card (nfa_targets nfa - closure), length stack))")
  show "wf (inv_image (less_than <*lex*> less_than)
    (\<lambda>(nfa, stack, closure). (card (nfa_targets nfa - closure), length stack)))"
    by (intro wf_inv_image wf_lex_prod wf_less_than)
next
  fix nfa :: nfa and current_state stack closure
  show "((nfa, stack, closure), (nfa, current_state # stack, closure))
     \<in> inv_image (less_than <*lex*> less_than)
        (\<lambda>(nfa, stack, closure). (card (nfa_targets nfa - closure), length stack))"
    by simp
next
  fix nfa :: nfa and current_state stack closure row
  assume row: "map_of (transitions nfa) current_state = Some row"
  from visit_row_spec [of "items row" stack closure] obtain new where
    new: "visit_row (items row) (stack, closure) = (new @ stack, closure \<union> epsilon_targets (items row))"
      "set new = epsilon_targets (items row) - closure"
    by blast
  let ?E = "epsilon_targets (items row)"
  have sub: "?E \<subseteq> nfa_targets nfa" using row by (rule epsilon_targets_subset)
  show "((nfa, visit_row (items row) (stack, closure)), (nfa, current_state # stack, closure))
     \<in> inv_image (less_than <*lex*> less_than)
        (\<lambda>(nfa, stack, closure). (card (nfa_targets nfa - closure), length stack))"
  proof (cases "new = []")
    case True
    with new have "closure \<union> ?E = closure" by auto
    with True new show ?thesis by simp
  next
    case False
    then obtain x where x: "x \<in> ?E" "x \<notin> closure" using new(2) by (cases new) auto
    have "nfa_targets nfa - (closure \<union> ?E) \<subset> nfa_targets nfa - closure"
      using x sub by auto
    then have "card (nfa_targets nfa - (closure \<union> ?E)) < card (nfa_targets nfa - closure)"
      by (intro psubset_card_mono) (simp_all add: finite_nfa_targets)
    with new show ?thesis by simp
  qed
qed

definition get_epsilon_closure :: "order \<Rightarrow> nfa \<Rightarrow> string set \<Rightarrow> string set" where
  "get_epsilon_closure ord nfa states_set = closure_loop nfa (rev (py_list ord states_set), states_set)"

definition epsilon_successors :: "nfa \<Rightarrow> string \<Rightarrow> string set" where
  "epsilon_successors nfa q =
     (case map_of (transitions nfa) q of None \<Rightarrow> {} | Some row \<Rightarrow> epsilon_targets (items row))"

definition epsilon_closed :: "nfa \<Rightarrow> string set \<Rightarrow> bool" where
  "epsilon_closed nfa T \<longleftrightarrow> (\<forall>q \<in> T. epsilon_successors nfa q \<subseteq> T)"

lemma py_list_set: "finite S \<Longrightarrow> set (py_list ord S) = S"
  by (simp add: py_list_def)

lemma py_list_distinct: "distinct (py_list ord S)"
  by (simp add: py_list_def)

lemma closure_loop_superset: "cl \<subseteq> closure_loop nfa (st, cl)"
proof (induction nfa "(st, cl)" arbitrary: st cl rule: closure_loop.induct)
  case (1 nfa closure)
  show ?case by simp
next
  case (2 nfa current_state stack closure)
  show ?case
  proof (cases "map_of (transitions nfa) current_state")
    case None
    with 2(1) show ?thesis by simp
  next
    case (Some row)
    from visit_row_spec [of "items row" stack closure] obtain new where
      new: "visit_row (items row) (stack, closure) = (new @ stack, closure \<union> epsilon_targets (items row))"
      by blast
    from 2(2) [OF Some new] Some new show ?thesis by simp
  qed
qed

lemma closure_loop_bound: "closure_loop nfa (st, cl) \<subseteq> cl \<union> nfa_targets nfa"
proof (induction nfa "(st, cl)" arbitrary: st cl rule: closure_loop.induct)
  case (1 nfa closure)
  show ?case by simp
next
  case (2 nfa current_state stack closure)
  show ?case
  proof (cases "map_of (transitions nfa) current_state")
    case None
    with 2(1) show ?thesis by simp
  next
    case (Some row)
    from visit_row_spec [of "items row" stack closure] obtain new where
      new: "visit_row (items row) (stack, closure) = (new @ stack, closure \<union> epsilon_targets (items row))"
      by blast
    from 2(2) [OF Some new] Some new epsilon_targets_subset [OF Some] show ?thesis by auto
  qed
qed

lemma closure_loop_closed:
  assumes "\<forall>q \<in> cl. q \<in> set st \<or> epsilon_successors nfa q \<subseteq> cl"
  shows "epsilon_closed nfa (closure_loop nfa (st, cl))"
  using assms
proof (induction nfa "(st, cl)" arbitrary: st cl rule: closure_loop.induct)
  case (1 nfa closure)
  then show ?case by (simp add: epsilon_closed_def)
next
  case (2 nfa current_state stack closure)
  show ?case
  proof (cases "map_of (transitions nfa) current_state")
    case None
    then have "epsilon_successors nfa current_state = {}" by (simp add: epsilon_successors_def)
    with 2(3) have "\<forall>q \<in> closure. q \<in> set stack \<or> epsilon_successors nfa q \<subseteq> closure" by auto
    from 2(1) [OF None this] None show ?thesis by simp
  next
    case (Some row)
    from visit_row_spec [of "items row" stack closure] obtain new where
      new: "visit_row (items row) (stack, closure) = (new @ stack, closure \<union> epsilon_targets (items row))"
        "set new = epsilon_targets (items row) - closure"
      by blast
    have succ: "epsilon_successors nfa current_state = epsilon_targets (items row)"
      using Some by (simp add: epsilon_successors_def)
    have "\<forall>q \<in> closure \<union> epsilon_targets (items row).
        q \<in> set (new @ stack) \<or> epsilon_successors nfa q \<subseteq> closure \<union> epsilon_targets (items row)"
    proof
      fix q
      assume q: "q \<in> closure \<union> epsilon_targets (items row)"
      show "q \<in> set (new @ stack) \<or> epsilon_successors nfa q \<subseteq> closure \<union> epsilon_targets (items row)"
      proof (cases "q \<in> closure")
        case False
        with q new(2) show ?thesis by auto
      next
        case True
        with 2(3) have "q = current_state \<or> q \<in> set stack \<or> epsilon_successors nfa q \<subseteq> closure"
          by auto
        with succ show ?thesis by auto
      qed
    qed
    from 2(2) [OF Some new(1) this] Some new(1) show ?thesis by simp
  qed
qed

lemma closure_loop_least:
  assumes "cl \<subseteq> T" "set st \<subseteq> T" "epsilon_closed nfa T"
  shows "closure_loop nfa (st, cl) \<subseteq> T"
  using assms
proof (induction nfa "(st, cl)" arbitrary: st cl rule: closure_loop.induct)
  case (1 nfa closure)
  then show ?case by simp
next
  case (2 nfa current_state stack closure)
  show ?case
  proof (cases "map_of (transitions nfa) current_state")
    case None
    from 2(1) [OF None] 2(3-5) None show ?thesis by simp
  next
    case (Some row)
    from visit_row_spec [of "items row" stack closure] obtain new where
      new: "visit_row (items row) (stack, closure) = (new @ stack, closure \<union> epsilon_targets (items row))"
        "set new = epsilon_targets (items row) - closure"
      by blast
    have succ: "epsilon_successors nfa current_state = epsilon_targets (items row)"
      using Some by (simp add: epsilon_successors_def)
    from 2(4,5) succ have E: "epsilon_targets (items row) \<subseteq> T"
      by (auto simp: epsilon_closed_def)
    have "closure \<union> epsilon_targets (items row) \<subseteq> T" using 2(3) E by auto
    moreover have "set (new @ stack) \<subseteq> T" using 2(4) E new(2) by auto
    ultimately have "closure_loop nfa (new @ stack, closure \<union> epsilon_targets (items row)) \<subseteq> T"
      using 2(2) [OF Some new(1)] 2(5) by blast
    with Some new(1) show ?thesis by simp
  qed
qed

lemma get_epsilon_closure_superset: "S \<subseteq> get_epsilon_closure ord nfa S"
  unfolding get_epsilon_closure_def by (rule closure_loop_superset)

lemma get_epsilon_closure_bound: "get_epsilon_closure ord nfa S \<subseteq> S \<union> nfa_targets nfa"
  unfolding get_epsilon_closure_def by (rule closure_loop_bound)

lemma get_epsilon_closure_finite: "finite S \<Longrightarrow> finite (get_epsilon_closure ord nfa S)"
  using get_epsilon_closure_bound [of ord nfa S] finite_nfa_targets [of nfa]
  by (meson finite_UnI finite_subset)

lemma get_epsilon_closure_closed:
  "finite S \<Longrightarrow> epsilon_closed nfa (get_epsilon_closure ord nfa S)"
  unfolding get_epsilon_closure_def
  by (rule closure_loop_closed) (simp add: py_list_set)

lemma get_epsilon_closure_least:
  "finite S \<Longrightarrow> S \<subseteq> T \<Longrightarrow> epsilon_closed nfa T \<Longrightarrow> get_epsilon_closure ord nfa S \<subseteq> T"
  unfolding get_epsilon_closure_def
  by (rule closure_loop_least) (simp_all add: py_list_set)

text \<open>
  C9. For every NFA and every finite set \<open>S\<close> of state identifiers, the closure of the
  closure is the closure, whatever order the two calls enumerate their sets in; the
  closure contains \<open>S\<close>, is closed under the epsilon transitions of the table, and is
  included in every set with these two properties.
\<close>

theorem closure_idempotent:
  assumes "finite S"
  shows "get_epsilon_closure ord' nfa (get_epsilon_closure ord nfa S) = get_epsilon_closure ord nfa S
       \<and> S \<subseteq> get_epsilon_closure ord nfa S
       \<and> epsilon_closed nfa (get_epsilon_closure ord nfa S)
       \<and> (\<forall>T. S \<subseteq> T \<and> epsilon_closed nfa T \<longrightarrow> get_epsilon_closure ord nfa S \<subseteq> T)"
proof -
  let ?R = "get_epsilon_closure ord nfa S"
  have fin: "finite ?R" using assms by (rule get_epsilon_closure_finite)
  have closed: "epsilon_closed nfa ?R" using assms by (rule get_epsilon_closure_closed)
  have "get_epsilon_closure ord' nfa ?R \<subseteq> ?R"
    by (rule get_epsilon_closure_least [OF fin subset_refl closed])
  moreover have "?R \<subseteq> get_epsilon_closure ord' nfa ?R" by (rule get_epsilon_closure_superset)
  ultimately show ?thesis
    using closed get_epsilon_closure_superset [of S ord nfa] get_epsilon_closure_least [OF assms]
    by blast
qed

definition example_eps_nfa :: nfa where
  "example_eps_nfa =
     \<lparr>start_state = Some ''a'', states = {''a'', ''b'', ''c'', ''d'', ''e''}, final_states = {''e''},
      transitions = [(''a'', [('''', [''b'', ''c'']), (''x'', [''d''])]),
                     (''c'', [(''EPSILON'', [''a'', ''e''])])]\<rparr>"

lemma example_closure:
  "get_epsilon_closure sorted_list_of_set example_eps_nfa {''a''} = {''a'', ''b'', ''c'', ''e''}"
  by (simp add: get_epsilon_closure_def py_list_def example_eps_nfa_def is_epsilon_label_def
      lower_def lower_char_def insert_commute)

theorem closure_idempotent_witness:
  "finite {''a''}
   \<and> get_epsilon_closure sorted_list_of_set example_eps_nfa
        (get_epsilon_closure sorted_list_of_set example_eps_nfa {''a''}) = {''a'', ''b'', ''c'', ''e''}"
proof -
  have h: "finite {''a''}" by simp
  have twice: "get_epsilon_closure sorted_list_of_set example_eps_nfa
        (get_epsilon_closure sorted_list_of_set example_eps_nfa {''a''})
      = get_epsilon_closure sorted_list_of_set example_eps_nfa {''a''}"
    using closure_idempotent [OF h, of sorted_list_of_set example_eps_nfa sorted_list_of_set]
    by blast
  show ?thesis unfolding twice using h example_closure by simp
qed

section \<open>Partition-refinement minimization\<close>

text \<open>
  The exceptions the modelled functions can raise. \<open>ValueError\<close> carries its message.
  \<open>Unsupported\<close> is not a Python exception: it marks a JSON document that the source would
  accept by storing a value that is not a string as a state identifier (see
  \<open>deserialize_nfa_json\<close>), which this model, whose identifiers are strings, does not follow.
\<close>

datatype error =
  FileNotFoundError | ValueError string | AttributeError | KeyError | IndexError | StopIteration
  | Unsupported

text \<open>Step 1 of \<open>minimize_dfa\<close>: every symbol that is a key of some row.\<close>

definition dfa_alphabet :: "dfa \<Rightarrow> string set" where
  "dfa_alphabet dfa =
     (\<Union>s \<in> set (keys (transitions dfa)).
        case map_of (transitions dfa) s of None \<Rightarrow> {} | Some row \<Rightarrow> set (keys row))"

text \<open>\<open>dfa.transitions.get(state, {}).get(char)\<close>\<close>

definition target_of :: "dfa \<Rightarrow> string \<Rightarrow> string \<Rightarrow> string option" where
  "target_of dfa state char =
     (case map_of (transitions dfa) state of None \<Rightarrow> None | Some row \<Rightarrow> map_of row char)"

text \<open>
  \<open>get_partition_index\<close>: the index of the first grp that holds the target, and \<open>-1\<close>
  for \<open>None\<close> and for a target that no grp holds.
\<close>

fun index_from :: "nat \<Rightarrow> string \<Rightarrow> string set list \<Rightarrow> int" where
  "index_from idx target_state [] = - 1"
| "index_from idx target_state (part # parts) =
     (if target_state \<in> part then int idx else index_from (Suc idx) target_state parts)"

definition get_partition_index :: "string option \<Rightarrow> string set list \<Rightarrow> int" where
  "get_partition_index target_state current_partitions =
     (case target_state of None \<Rightarrow> - 1 | Some t \<Rightarrow> index_from 0 t current_partitions)"

text \<open>
  The loop over \<open>alphabet\<close> that compares \<open>state\<close> with the reference state \<open>first\<close>; its
  \<open>break\<close> only cuts the loop short once \<open>is_matching\<close> is \<open>False\<close>.
\<close>

definition is_matching ::
  "order \<Rightarrow> dfa \<Rightarrow> string set \<Rightarrow> string set list \<Rightarrow> string \<Rightarrow> string \<Rightarrow> bool" where
  "is_matching ord dfa alphabet partitions first state =
     list_all (\<lambda>char. get_partition_index (target_of dfa first char) partitions
                    = get_partition_index (target_of dfa state char) partitions)
       (py_list ord alphabet)"

text \<open>
  The body of \<open>for group in partitions\<close>: the groups that the pass appends to
  \<open>new_partitions\<close> for one grp, and whether it split. \<open>group_list[0]\<close> raises
  \<open>IndexError\<close> on an empty list.
\<close>

definition split_group ::
  "order \<Rightarrow> dfa \<Rightarrow> string set \<Rightarrow> string set list \<Rightarrow> string set \<Rightarrow> error + (string set list \<times> bool)" where
  "split_group ord dfa alphabet partitions grp =
     (if card grp \<le> 1 then Inr ([grp], False)
      else case py_list ord grp of
        [] \<Rightarrow> Inl IndexError
      | first # rest \<Rightarrow>
          (let matching_group = insert first {state \<in> set rest. is_matching ord dfa alphabet partitions first state};
               non_matching_group = {state \<in> set rest. \<not> is_matching ord dfa alphabet partitions first state}
           in if non_matching_group \<noteq> {}
              then Inr ([matching_group, non_matching_group], True)
              else Inr ([grp], False)))"

text \<open>
  One pass of the \<open>while\<close> loop over the groups still to visit: \<open>new_partitions\<close> and
  \<open>did_split_occur\<close>. Lookups go to \<open>partitions\<close>, the partition at the start of the pass.
\<close>

fun refine_pass ::
  "order \<Rightarrow> dfa \<Rightarrow> string set \<Rightarrow> string set list \<Rightarrow> string set list \<Rightarrow> error + (string set list \<times> bool)" where
  "refine_pass ord dfa alphabet partitions [] = Inr ([], False)"
| "refine_pass ord dfa alphabet partitions (grp # groups) =
     (case split_group ord dfa alphabet partitions grp of
        Inl e \<Rightarrow> Inl e
      | Inr (parts, split) \<Rightarrow>
          (case refine_pass ord dfa alphabet partitions groups of
             Inl e \<Rightarrow> Inl e
           | Inr (new_partitions, did_split_occur) \<Rightarrow>
               Inr (parts @ new_partitions, split \<or> did_split_occur)))"

definition slack :: "string set list \<Rightarrow> nat" where
  "slack partitions = sum_list (map (\<lambda>grp. card grp - 1) partitions)"

lemma split_group_unfold:
  assumes "\<not> card grp \<le> 1" "py_list ord grp = first # rest"
  shows "split_group ord dfa alphabet partitions grp =
     (if {state \<in> set rest. \<not> is_matching ord dfa alphabet partitions first state} \<noteq> {}
      then Inr ([insert first {state \<in> set rest. is_matching ord dfa alphabet partitions first state},
                 {state \<in> set rest. \<not> is_matching ord dfa alphabet partitions first state}], True)
      else Inr ([grp], False))"
  unfolding split_group_def Let_def using assms by (simp split del: if_split cong: if_cong)

lemma py_list_nonempty:
  assumes "\<not> card grp \<le> 1"
  shows "\<exists>first rest. py_list ord grp = first # rest \<and> grp = insert first (set rest) \<and> first \<notin> set rest"
proof -
  from assms have fin: "finite grp" by (metis card.infinite zero_le)
  from assms have "grp \<noteq> {}" by auto
  with py_list_set [OF fin, of ord] obtain first rest where fr: "py_list ord grp = first # rest"
    by (cases "py_list ord grp") auto
  with py_list_set [OF fin, of ord] py_list_distinct [of ord grp] show ?thesis by auto
qed

lemma split_group_slack:
  assumes "split_group ord dfa alphabet partitions grp = Inr (parts, split)"
  shows "if split then slack parts < slack [grp] else parts = [grp]"
proof (cases "card grp \<le> 1")
  case True
  with assms show ?thesis by (simp add: split_group_def)
next
  case False
  then have fin: "finite grp" by (metis card.infinite zero_le)
  from py_list_nonempty [OF False, of ord] obtain first rest where
    fr: "py_list ord grp = first # rest" and grp: "grp = insert first (set rest)" "first \<notin> set rest"
    by blast
  define M where "M = insert first {state \<in> set rest. is_matching ord dfa alphabet partitions first state}"
  define N where "N = {state \<in> set rest. \<not> is_matching ord dfa alphabet partitions first state}"
  have sg: "split_group ord dfa alphabet partitions grp =
     (if N \<noteq> {} then Inr ([M, N], True) else Inr ([grp], False))"
    unfolding M_def N_def by (rule split_group_unfold [OF False fr])
  show ?thesis
  proof (cases "N = {}")
    case True
    with assms sg show ?thesis by simp
  next
    case nonempty: False
    with assms sg have res: "parts = [M, N]" "split" by simp_all
    have "M \<union> N = grp" "M \<inter> N = {}" using grp by (auto simp: M_def N_def)
    moreover have "finite M" "finite N" using fin grp by (auto simp: M_def N_def)
    ultimately have "card M + card N = card grp" by (metis card_Un_disjoint)
    moreover have "card M \<ge> 1" using \<open>finite M\<close> by (simp add: M_def Suc_le_eq card_gt_0_iff)
    moreover have "card N \<ge> 1" using \<open>finite N\<close> nonempty by (simp add: Suc_le_eq card_gt_0_iff)
    ultimately show ?thesis using res False by (simp add: slack_def)
  qed
qed

lemma refine_pass_Cons_Inr:
  assumes "refine_pass ord dfa alphabet partitions (grp # groups) = Inr (new_partitions, did_split_occur)"
  obtains parts split rest_parts rest_split where
    "split_group ord dfa alphabet partitions grp = Inr (parts, split)"
    "refine_pass ord dfa alphabet partitions groups = Inr (rest_parts, rest_split)"
    "new_partitions = parts @ rest_parts" "did_split_occur = (split \<or> rest_split)"
proof (cases "split_group ord dfa alphabet partitions grp")
  case (Inl e)
  with assms show ?thesis by simp
next
  case (Inr ps)
  obtain parts split where ps: "ps = (parts, split)" by (cases ps)
  show ?thesis
  proof (cases "refine_pass ord dfa alphabet partitions groups")
    case (Inl e)
    with assms Inr ps show ?thesis by simp
  next
    case rp: (Inr rs)
    obtain rest_parts rest_split where rs: "rs = (rest_parts, rest_split)" by (cases rs)
    from assms Inr ps rp rs that [of parts split rest_parts rest_split] show ?thesis by simp
  qed
qed

lemma refine_pass_slack:
  assumes "refine_pass ord dfa alphabet partitions groups = Inr (new_partitions, did_split_occur)"
  shows "if did_split_occur then slack new_partitions < slack groups else new_partitions = groups"
  using assms
proof (induction groups arbitrary: new_partitions did_split_occur)
  case Nil
  then show ?case by simp
next
  case (Cons grp groups)
  from Cons.prems obtain parts split rest_parts rest_split where
    sg: "split_group ord dfa alphabet partitions grp = Inr (parts, split)" and
    rp: "refine_pass ord dfa alphabet partitions groups = Inr (rest_parts, rest_split)" and
    res: "new_partitions = parts @ rest_parts" "did_split_occur = (split \<or> rest_split)"
    by (rule refine_pass_Cons_Inr)
  from split_group_slack [OF sg] Cons.IH [OF rp]
  have a: "if split then slack parts < slack [grp] else parts = [grp]"
    and b: "if rest_split then slack rest_parts < slack groups else rest_parts = groups" by auto
  have app: "slack (xs @ ys) = slack xs + slack ys" for xs ys by (simp add: slack_def)
  have cons: "slack (grp # groups) = slack [grp] + slack groups" by (simp add: slack_def)
  from a b show ?case
    unfolding res app cons by (auto split: if_splits simp: slack_def)
qed

function refine_loop :: "order \<Rightarrow> dfa \<Rightarrow> string set \<Rightarrow> string set list \<Rightarrow> error + string set list" where
  "refine_loop ord dfa alphabet partitions =
     (case refine_pass ord dfa alphabet partitions partitions of
        Inl e \<Rightarrow> Inl e
      | Inr (new_partitions, did_split_occur) \<Rightarrow>
          if did_split_occur then refine_loop ord dfa alphabet new_partitions
          else Inr new_partitions)"
  by pat_completeness auto

termination
proof (relation "measure (\<lambda>(ord, dfa, alphabet, partitions). slack partitions)")
  show "wf (measure (\<lambda>(ord, dfa, alphabet, partitions). slack partitions))" by simp
next
  fix ord :: order and dfa :: dfa and alphabet partitions x2 new_partitions did_split_occur
  assume "refine_pass ord dfa alphabet partitions partitions = Inr x2"
    "(new_partitions, did_split_occur) = x2" "did_split_occur"
  with refine_pass_slack [of ord dfa alphabet partitions partitions new_partitions did_split_occur]
  show "((ord, dfa, alphabet, new_partitions), (ord, dfa, alphabet, partitions))
      \<in> measure (\<lambda>(ord, dfa, alphabet, partitions). slack partitions)"
    by auto
qed

declare refine_loop.simps [simp del]

text \<open>
  Step 4: the first loop names the groups \<open>S0, S1, ...\<close> in list order, registers their
  finality, finds the start state and fills \<open>state_name_map\<close>.
\<close>

fun name_groups ::
  "dfa \<Rightarrow> nat \<Rightarrow> string set list \<Rightarrow> dfa \<times> (string \<rightharpoonup> string) \<Rightarrow> dfa \<times> (string \<rightharpoonup> string)" where
  "name_groups dfa i [] (min_dfa, state_name_map) = (min_dfa, state_name_map)"
| "name_groups dfa i (grp # groups) (min_dfa, state_name_map) =
     (let new_state_name = state_name_of i;
          is_final = (\<exists>state \<in> grp. state \<in> final_states dfa);
          min_dfa1 = add_state min_dfa new_state_name is_final;
          min_dfa2 = (if (case start_state dfa of None \<Rightarrow> False | Some s \<Rightarrow> s \<in> grp)
                      then min_dfa1\<lparr>start_state := Some new_state_name\<rparr> else min_dfa1)
      in name_groups dfa (Suc i) groups
           (min_dfa2, \<lambda>state. if state \<in> grp then Some new_state_name else state_name_map state))"

text \<open>
  The second loop: for the first state that iteration over the grp yields, every
  transition whose target has a name is copied. \<open>next(iter(group))\<close> raises
  \<open>StopIteration\<close> on an empty grp, \<open>state_name_map[rep]\<close> raises \<open>KeyError\<close> on a state
  without a name.
\<close>

fun copy_row :: "(string \<times> string) list \<Rightarrow> string \<Rightarrow> (string \<rightharpoonup> string) \<Rightarrow> dfa \<Rightarrow> dfa" where
  "copy_row [] source_name state_name_map min_dfa = min_dfa"
| "copy_row ((char, target) # row) source_name state_name_map min_dfa =
     (case state_name_map target of
        None \<Rightarrow> copy_row row source_name state_name_map min_dfa
      | Some target_name \<Rightarrow>
          copy_row row source_name state_name_map
            (dfa_add_transition min_dfa source_name char target_name))"

fun link_groups ::
  "order \<Rightarrow> dfa \<Rightarrow> (string \<rightharpoonup> string) \<Rightarrow> string set list \<Rightarrow> dfa \<Rightarrow> error + dfa" where
  "link_groups ord dfa state_name_map [] min_dfa = Inr min_dfa"
| "link_groups ord dfa state_name_map (grp # groups) min_dfa =
     (case py_list ord grp of
        [] \<Rightarrow> Inl StopIteration
      | rep # _ \<Rightarrow>
          (case state_name_map rep of
             None \<Rightarrow> Inl KeyError
           | Some source_name \<Rightarrow>
               (case map_of (transitions dfa) rep of
                  None \<Rightarrow> link_groups ord dfa state_name_map groups min_dfa
                | Some row \<Rightarrow>
                    link_groups ord dfa state_name_map groups
                      (copy_row (items row) source_name state_name_map min_dfa))))"

definition initial_partition :: "dfa \<Rightarrow> string set list" where
  "initial_partition dfa =
     (let non_final_states = states dfa - final_states dfa
      in (if non_final_states \<noteq> {} then [non_final_states] else [])
         @ (if final_states dfa \<noteq> {} then [final_states dfa] else []))"

definition minimize_dfa :: "order \<Rightarrow> dfa \<Rightarrow> error + dfa" where
  "minimize_dfa ord dfa =
     (case refine_loop ord dfa (dfa_alphabet dfa) (initial_partition dfa) of
        Inl e \<Rightarrow> Inl e
      | Inr partitions \<Rightarrow>
          (case name_groups dfa 0 partitions (DFA, Map.empty) of
             (min_dfa, state_name_map) \<Rightarrow> link_groups ord dfa state_name_map partitions min_dfa))"

definition scenario_dfa :: dfa where
  "scenario_dfa =
     \<lparr>start_state = Some ''S0'', states = {''S0'', ''S1'', ''S2''}, final_states = {''S2''},
      transitions = [(''S0'', [(''a'', ''S1'')]), (''S1'', [(''a'', ''S1''), (''b'', ''S2'')]), (''S2'', [])]\<rparr>"

section \<open>Correctness of the refinement\<close>

text \<open>Acceptance by a DFA: a symbol without a transition rejects.\<close>

fun dfa_accepts_from :: "dfa \<Rightarrow> string \<Rightarrow> string list \<Rightarrow> bool" where
  "dfa_accepts_from dfa q [] = (q \<in> final_states dfa)"
| "dfa_accepts_from dfa q (c # w) =
     (case target_of dfa q c of None \<Rightarrow> False | Some q' \<Rightarrow> dfa_accepts_from dfa q' w)"

definition dfa_accepts :: "dfa \<Rightarrow> string list \<Rightarrow> bool" where
  "dfa_accepts dfa w = (case start_state dfa of None \<Rightarrow> False | Some q \<Rightarrow> dfa_accepts_from dfa q w)"

text \<open>Two states agree on every symbol of the alphabet, as the pass compares them.\<close>

definition same_signature :: "dfa \<Rightarrow> string set \<Rightarrow> string set list \<Rightarrow> string \<Rightarrow> string \<Rightarrow> bool" where
  "same_signature dfa alphabet partitions s t \<longleftrightarrow>
     (\<forall>char \<in> alphabet. get_partition_index (target_of dfa s char) partitions
                       = get_partition_index (target_of dfa t char) partitions)"

definition stable :: "dfa \<Rightarrow> string set \<Rightarrow> string set list \<Rightarrow> bool" where
  "stable dfa alphabet partitions \<longleftrightarrow>
     (\<forall>grp \<in> set partitions. \<forall>s \<in> grp. \<forall>t \<in> grp. same_signature dfa alphabet partitions s t)"

fun disjoint_groups :: "string set list \<Rightarrow> bool" where
  "disjoint_groups [] = True"
| "disjoint_groups (grp # groups) = ((\<forall>h \<in> set groups. grp \<inter> h = {}) \<and> disjoint_groups groups)"

definition partition_ok :: "dfa \<Rightarrow> string set list \<Rightarrow> bool" where
  "partition_ok dfa partitions \<longleftrightarrow>
     (\<forall>grp \<in> set partitions. finite grp \<and> grp \<noteq> {}
         \<and> (grp \<subseteq> final_states dfa \<or> grp \<inter> final_states dfa = {}))
     \<and> \<Union> (set partitions) = states dfa \<union> final_states dfa
     \<and> disjoint_groups partitions"

lemma is_matching_iff:
  "finite alphabet \<Longrightarrow>
   is_matching ord dfa alphabet partitions first state = same_signature dfa alphabet partitions first state"
  by (simp add: is_matching_def same_signature_def list_all_iff py_list_set)

lemma same_signature_refl: "same_signature dfa alphabet partitions s s"
  by (simp add: same_signature_def)

lemma same_signature_sym:
  "same_signature dfa alphabet partitions s t \<Longrightarrow> same_signature dfa alphabet partitions t s"
  by (simp add: same_signature_def)

lemma same_signature_trans:
  "same_signature dfa alphabet partitions s t \<Longrightarrow> same_signature dfa alphabet partitions t u
   \<Longrightarrow> same_signature dfa alphabet partitions s u"
  by (simp add: same_signature_def)

lemma card_le_1_same: "finite grp \<Longrightarrow> card grp \<le> 1 \<Longrightarrow> s \<in> grp \<Longrightarrow> t \<in> grp \<Longrightarrow> s = t"
  by (metis One_nat_def card_le_Suc0_iff_eq)

lemma split_group_cases:
  assumes "finite alphabet" "finite grp"
  obtains
    (keep) "split_group ord dfa alphabet partitions grp = Inr ([grp], False)"
           "\<forall>s \<in> grp. \<forall>t \<in> grp. same_signature dfa alphabet partitions s t"
  | (split) M N where "split_group ord dfa alphabet partitions grp = Inr ([M, N], True)"
           "M \<union> N = grp" "M \<inter> N = {}" "M \<noteq> {}" "N \<noteq> {}"
proof (cases "card grp \<le> 1")
  case True
  then have "split_group ord dfa alphabet partitions grp = Inr ([grp], False)"
    by (simp add: split_group_def)
  moreover have "\<forall>s \<in> grp. \<forall>t \<in> grp. same_signature dfa alphabet partitions s t"
    using card_le_1_same [OF assms(2) True] same_signature_refl by metis
  ultimately show ?thesis by (rule keep)
next
  case False
  from py_list_nonempty [OF False, of ord] obtain first rest where
    fr: "py_list ord grp = first # rest" and grp: "grp = insert first (set rest)" "first \<notin> set rest"
    by blast
  define M where "M = insert first {state \<in> set rest. is_matching ord dfa alphabet partitions first state}"
  define N where "N = {state \<in> set rest. \<not> is_matching ord dfa alphabet partitions first state}"
  have sg: "split_group ord dfa alphabet partitions grp =
     (if N \<noteq> {} then Inr ([M, N], True) else Inr ([grp], False))"
    unfolding M_def N_def by (rule split_group_unfold [OF False fr])
  show ?thesis
  proof (cases "N = {}")
    case True
    then have all: "\<forall>s \<in> grp. same_signature dfa alphabet partitions first s"
      using grp same_signature_refl [of dfa alphabet partitions first]
      by (auto simp: N_def is_matching_iff [OF assms(1)])
    have "\<forall>s \<in> grp. \<forall>t \<in> grp. same_signature dfa alphabet partitions s t"
      using all same_signature_sym same_signature_trans by blast
    with sg True show ?thesis by (intro keep) simp_all
  next
    case False
    have "M \<union> N = grp" "M \<inter> N = {}" "M \<noteq> {}" using grp by (auto simp: M_def N_def)
    with sg False show ?thesis by (intro split [of M N]) simp_all
  qed
qed

lemma split_group_total: "\<exists>r. split_group ord dfa alphabet partitions grp = Inr r"
proof (cases "card grp \<le> 1")
  case True
  then have "split_group ord dfa alphabet partitions grp = Inr ([grp], False)"
    by (simp add: split_group_def)
  then show ?thesis by blast
next
  case False
  from py_list_nonempty [OF False, of ord] obtain first rest where
    fr: "py_list ord grp = first # rest" by blast
  show ?thesis unfolding split_group_unfold [OF False fr] by (cases "{state \<in> set rest. \<not> is_matching ord dfa alphabet partitions first state} = {}") auto
qed

lemma refine_pass_total: "\<exists>r. refine_pass ord dfa alphabet partitions groups = Inr r"
proof (induction groups)
  case Nil
  have "refine_pass ord dfa alphabet partitions [] = Inr ([], False)" by simp
  then show ?case by blast
next
  case (Cons grp groups)
  from split_group_total [of ord dfa alphabet partitions grp] obtain parts split where
    "split_group ord dfa alphabet partitions grp = Inr (parts, split)" by force
  moreover from Cons.IH obtain ps b where
    "refine_pass ord dfa alphabet partitions groups = Inr (ps, b)" by force
  ultimately show ?case by simp
qed

lemma disjoint_groups_append:
  "disjoint_groups (xs @ ys) \<longleftrightarrow>
     disjoint_groups xs \<and> disjoint_groups ys \<and> (\<forall>x \<in> set xs. \<forall>y \<in> set ys. x \<inter> y = {})"
  by (induction xs) auto

lemma refine_pass_props:
  assumes "refine_pass ord dfa alphabet partitions groups = Inr (new_partitions, did_split_occur)"
    and "finite alphabet" "\<forall>grp \<in> set groups. finite grp \<and> grp \<noteq> {}" "disjoint_groups groups"
  shows "\<Union> (set new_partitions) = \<Union> (set groups)
       \<and> (\<forall>p \<in> set new_partitions. p \<noteq> {} \<and> (\<exists>grp \<in> set groups. p \<subseteq> grp))
       \<and> disjoint_groups new_partitions"
  using assms
proof (induction groups arbitrary: new_partitions did_split_occur)
  case Nil
  then show ?case by simp
next
  case (Cons grp groups)
  from Cons.prems(1) obtain parts split rest_parts rest_split where
    sg: "split_group ord dfa alphabet partitions grp = Inr (parts, split)" and
    rp: "refine_pass ord dfa alphabet partitions groups = Inr (rest_parts, rest_split)" and
    res: "new_partitions = parts @ rest_parts"
    by (rule refine_pass_Cons_Inr)
  from Cons.prems have fin: "finite grp" "grp \<noteq> {}" and
    rest: "\<forall>g \<in> set groups. finite g \<and> g \<noteq> {}" "disjoint_groups groups" and
    away: "\<forall>h \<in> set groups. grp \<inter> h = {}" by auto
  from Cons.IH [OF rp Cons.prems(2) rest]
  have ih: "\<Union> (set rest_parts) = \<Union> (set groups)"
    "\<forall>p \<in> set rest_parts. p \<noteq> {} \<and> (\<exists>g \<in> set groups. p \<subseteq> g)"
    "disjoint_groups rest_parts" by auto
  have parts: "\<Union> (set parts) = grp \<and> (\<forall>p \<in> set parts. p \<noteq> {} \<and> p \<subseteq> grp) \<and> disjoint_groups parts"
  proof (rule split_group_cases [OF Cons.prems(2) fin(1), of ord dfa partitions])
    assume "split_group ord dfa alphabet partitions grp = Inr ([grp], False)"
    with sg have "parts = [grp]" by simp
    with fin show ?thesis by simp
  next
    fix M N
    assume a: "split_group ord dfa alphabet partitions grp = Inr ([M, N], True)"
      and b: "M \<union> N = grp" "M \<inter> N = {}" "M \<noteq> {}" "N \<noteq> {}"
    from a sg have "parts = [M, N]" by simp
    with b show ?thesis by auto
  qed
  have cross: "\<forall>x \<in> set parts. \<forall>y \<in> set rest_parts. x \<inter> y = {}"
  proof (intro ballI)
    fix x y
    assume x: "x \<in> set parts" and y: "y \<in> set rest_parts"
    from parts x have xg: "x \<subseteq> grp" by simp
    from ih(2) y obtain h where h: "h \<in> set groups" "y \<subseteq> h" by auto
    from away h(1) have "grp \<inter> h = {}" by simp
    with xg h(2) show "x \<inter> y = {}" by blast
  qed
  have "\<Union> (set (parts @ rest_parts)) = \<Union> (set (grp # groups))"
    using parts ih(1) by simp
  moreover have "\<forall>p \<in> set (parts @ rest_parts). p \<noteq> {} \<and> (\<exists>g \<in> set (grp # groups). p \<subseteq> g)"
  proof
    fix p
    assume "p \<in> set (parts @ rest_parts)"
    then consider "p \<in> set parts" | "p \<in> set rest_parts" by auto
    then show "p \<noteq> {} \<and> (\<exists>g \<in> set (grp # groups). p \<subseteq> g)"
    proof cases
      case 1
      with parts show ?thesis by simp
    next
      case 2
      with ih(2) show ?thesis by auto
    qed
  qed
  moreover have "disjoint_groups (parts @ rest_parts)"
    unfolding disjoint_groups_append using parts ih(3) cross by simp
  ultimately show ?case unfolding res by simp
qed

lemma refine_pass_stable:
  assumes "refine_pass ord dfa alphabet partitions groups = Inr (new_partitions, False)"
    and "finite alphabet" "\<forall>grp \<in> set groups. finite grp"
  shows "\<forall>grp \<in> set groups. \<forall>s \<in> grp. \<forall>t \<in> grp. same_signature dfa alphabet partitions s t"
  using assms
proof (induction groups arbitrary: new_partitions)
  case Nil
  show ?case by simp
next
  case (Cons grp groups)
  from Cons.prems(1) obtain parts split rest_parts rest_split where
    sg: "split_group ord dfa alphabet partitions grp = Inr (parts, split)" and
    rp: "refine_pass ord dfa alphabet partitions groups = Inr (rest_parts, rest_split)" and
    flag: "False = (split \<or> rest_split)"
    by (rule refine_pass_Cons_Inr)
  from flag have ns: "\<not> split" "\<not> rest_split" by auto
  from Cons.prems(3) have fin: "finite grp" "\<forall>g \<in> set groups. finite g" by auto
  from rp ns have "refine_pass ord dfa alphabet partitions groups = Inr (rest_parts, False)" by simp
  from Cons.IH [OF this Cons.prems(2) fin(2)]
  have ih: "\<forall>g \<in> set groups. \<forall>s \<in> g. \<forall>t \<in> g. same_signature dfa alphabet partitions s t" .
  have "\<forall>s \<in> grp. \<forall>t \<in> grp. same_signature dfa alphabet partitions s t"
  proof (rule split_group_cases [OF Cons.prems(2) fin(1), of ord dfa partitions])
    assume "\<forall>s \<in> grp. \<forall>t \<in> grp. same_signature dfa alphabet partitions s t"
    then show ?thesis .
  next
    fix M N
    assume "split_group ord dfa alphabet partitions grp = Inr ([M, N], True)"
    with sg ns show ?thesis by simp
  qed
  with ih show ?case by simp
qed

lemma partition_ok_initial:
  assumes "finite (states dfa)" "finite (final_states dfa)"
  shows "partition_ok dfa (initial_partition dfa)"
  using assms unfolding partition_ok_def initial_partition_def Let_def
  by auto

lemma refine_pass_ok:
  assumes "partition_ok dfa partitions" "finite alphabet"
    and "refine_pass ord dfa alphabet partitions partitions = Inr (new_partitions, did_split_occur)"
  shows "partition_ok dfa new_partitions"
proof -
  from assms(1) have grp: "\<forall>g \<in> set partitions. finite g \<and> g \<noteq> {}"
    and hom: "\<forall>g \<in> set partitions. g \<subseteq> final_states dfa \<or> g \<inter> final_states dfa = {}"
    and cover: "\<Union> (set partitions) = states dfa \<union> final_states dfa"
    and dis: "disjoint_groups partitions"
    by (simp_all add: partition_ok_def)
  from refine_pass_props [OF assms(3,2) grp dis]
  have p1: "\<Union> (set new_partitions) = \<Union> (set partitions)"
    and p2: "\<forall>p \<in> set new_partitions. p \<noteq> {} \<and> (\<exists>g \<in> set partitions. p \<subseteq> g)"
    and p3: "disjoint_groups new_partitions" by simp_all
  have "\<forall>p \<in> set new_partitions. finite p \<and> p \<noteq> {}
      \<and> (p \<subseteq> final_states dfa \<or> p \<inter> final_states dfa = {})"
  proof
    fix p
    assume "p \<in> set new_partitions"
    with p2 obtain g where g: "p \<noteq> {}" "g \<in> set partitions" "p \<subseteq> g" by auto
    from grp g(2) have "finite g" by simp
    with g(3) have "finite p" by (simp add: finite_subset)
    moreover from hom g(2) have "g \<subseteq> final_states dfa \<or> g \<inter> final_states dfa = {}" by simp
    with g(3) have "p \<subseteq> final_states dfa \<or> p \<inter> final_states dfa = {}" by blast
    ultimately show "finite p \<and> p \<noteq> {} \<and> (p \<subseteq> final_states dfa \<or> p \<inter> final_states dfa = {})"
      using g(1) by simp
  qed
  with p1 p3 cover show ?thesis by (simp add: partition_ok_def)
qed

lemma refine_loop_result:
  assumes "partition_ok dfa partitions" "finite alphabet"
  shows "\<exists>final. refine_loop ord dfa alphabet partitions = Inr final
           \<and> partition_ok dfa final \<and> stable dfa alphabet final"
  using assms
proof (induction ord dfa alphabet partitions rule: refine_loop.induct)
  case (1 ord dfa alphabet partitions)
  from refine_pass_total [of ord dfa alphabet partitions partitions]
  obtain new_partitions did_split_occur where
    rp: "refine_pass ord dfa alphabet partitions partitions = Inr (new_partitions, did_split_occur)"
    by force
  have ok: "partition_ok dfa new_partitions"
    by (rule refine_pass_ok [OF "1.prems" rp])
  show ?case
  proof (cases did_split_occur)
    case True
    from "1.IH" [OF rp refl True ok "1.prems"(2)] rp True show ?thesis
      by (subst refine_loop.simps) simp
  next
    case False
    with refine_pass_slack [OF rp] have same: "new_partitions = partitions" by simp
    from "1.prems"(1) have "\<forall>g \<in> set partitions. finite g" by (simp add: partition_ok_def)
    with rp False have "stable dfa alphabet partitions"
      unfolding stable_def by (intro refine_pass_stable [OF _ "1.prems"(2)]) simp_all
    with rp False same "1.prems"(1) show ?thesis
      by (subst refine_loop.simps) simp
  qed
qed

lemma of_char_digit_char: "d < 10 \<Longrightarrow> of_char (digit_char d) = 48 + d"
  by (simp add: digit_char_def)

lemma decimal_value: "foldl (\<lambda>a c. 10 * a + (of_char c - 48)) 0 (decimal n) = n"
proof (induction n rule: decimal.induct)
  case (1 n)
  show ?case
  proof (cases "n < 10")
    case True
    then have "decimal n = [digit_char n]" by (subst decimal.simps) simp
    with True show ?thesis by (simp add: of_char_digit_char)
  next
    case False
    then have d: "decimal n = decimal (n div 10) @ [digit_char (n mod 10)]"
      by (subst decimal.simps) simp
    have o: "of_char (digit_char (n mod 10)) = 48 + n mod 10"
      by (rule of_char_digit_char) simp
    have ih: "foldl (\<lambda>a c. 10 * a + (of_char c - 48)) 0 (decimal (n div 10)) = n div 10"
      by (rule "1.IH" [OF False])
    have "foldl (\<lambda>a c. 10 * a + (of_char c - 48)) 0 (decimal (n div 10) @ [digit_char (n mod 10)])
        = 10 * (n div 10) + (of_char (digit_char (n mod 10)) - 48)"
      by (simp only: foldl_append foldl.simps ih)
    also have "\<dots> = n" unfolding o by simp
    finally show ?thesis by (simp only: d)
  qed
qed

lemma decimal_inj:
  assumes "decimal m = decimal n"
  shows "m = n"
proof -
  have "m = foldl (\<lambda>a c. 10 * a + (of_char c - 48)) 0 (decimal m)"
    by (simp only: decimal_value)
  also have "\<dots> = foldl (\<lambda>a c. 10 * a + (of_char c - 48)) 0 (decimal n)"
    by (simp only: assms)
  also have "\<dots> = n" by (simp only: decimal_value)
  finally show ?thesis .
qed

lemma state_name_of_inj [simp]: "state_name_of i = state_name_of j \<longleftrightarrow> i = j"
  by (auto simp: state_name_of_def dest: decimal_inj)

lemma target_of_add_state [simp]: "target_of (add_state m n f) q c = target_of m q c"
  by (auto simp: target_of_def add_state_def map_of_dict_set split: option.splits)

lemma target_of_dfa_add_transition:
  "target_of (dfa_add_transition m p s t) q c = (if q = p \<and> c = s then Some t else target_of m q c)"
  by (auto simp: target_of_def dfa_add_transition_def Let_def map_of_dict_set split: option.splits)

lemma fields_dfa_add_transition [simp]:
  "states (dfa_add_transition m p s t) = states m"
  "final_states (dfa_add_transition m p s t) = final_states m"
  "start_state (dfa_add_transition m p s t) = start_state m"
  by (simp_all add: dfa_add_transition_def Let_def)

lemma fields_add_state [simp]:
  "states (add_state m n f) = insert n (states m)"
  "final_states (add_state m n f) = (if f then insert n (final_states m) else final_states m)"
  "start_state (add_state m n f) = start_state m"
  by (simp_all add: add_state_def)

lemma name_groups_states:
  "name_groups d i groups (m, nm) = (m', nm') \<Longrightarrow>
   states m' = states m \<union> state_name_of ` {i ..< i + length groups}"
proof (induction groups arbitrary: i m nm)
  case Nil
  then show ?case by simp
next
  case (Cons g groups)
  have "{i ..< i + length (g # groups)} = insert i {Suc i ..< Suc i + length groups}" by auto
  with Cons.prems show ?case
    by (auto simp: Let_def dest!: Cons.IH split: if_splits)
qed

lemma name_groups_final:
  "name_groups d i groups (m, nm) = (m', nm') \<Longrightarrow>
   final_states m' = final_states m \<union>
     {state_name_of (i + j) | j. j < length groups \<and> (\<exists>s \<in> groups ! j. s \<in> final_states d)}"
proof (induction groups arbitrary: i m nm)
  case Nil
  then show ?case by simp
next
  case (Cons g groups)
  let ?F = "\<lambda>i gs. {state_name_of (i + j) | j. j < length gs \<and> (\<exists>s \<in> gs ! j. s \<in> final_states d)}"
  have split: "?F i (g # groups) = (if (\<exists>s \<in> g. s \<in> final_states d) then {state_name_of i} else {})
      \<union> ?F (Suc i) groups"
  proof (intro set_eqI iffI)
    fix x
    assume "x \<in> ?F i (g # groups)"
    then obtain j where j: "x = state_name_of (i + j)" "j < length (g # groups)"
      "\<exists>s \<in> (g # groups) ! j. s \<in> final_states d" by blast
    show "x \<in> (if (\<exists>s \<in> g. s \<in> final_states d) then {state_name_of i} else {}) \<union> ?F (Suc i) groups"
    proof (cases j)
      case 0
      with j show ?thesis by auto
    next
      case (Suc k)
      with j have "x = state_name_of (Suc i + k)" "k < length groups"
        "\<exists>s \<in> groups ! k. s \<in> final_states d" by simp_all
      then show ?thesis by blast
    qed
  next
    fix x
    assume "x \<in> (if (\<exists>s \<in> g. s \<in> final_states d) then {state_name_of i} else {}) \<union> ?F (Suc i) groups"
    then consider "x = state_name_of i" "\<exists>s \<in> g. s \<in> final_states d" | "x \<in> ?F (Suc i) groups"
      by (auto split: if_splits)
    then show "x \<in> ?F i (g # groups)"
    proof cases
      case 1
      then have "x = state_name_of (i + 0) \<and> 0 < length (g # groups)
          \<and> (\<exists>s \<in> (g # groups) ! 0. s \<in> final_states d)" by simp
      then show ?thesis by blast
    next
      case 2
      then obtain k where "x = state_name_of (Suc i + k)" "k < length groups"
        "\<exists>s \<in> groups ! k. s \<in> final_states d" by blast
      then have "x = state_name_of (i + Suc k) \<and> Suc k < length (g # groups)
          \<and> (\<exists>s \<in> (g # groups) ! Suc k. s \<in> final_states d)" by simp
      then show ?thesis by blast
    qed
  qed
  from Cons.prems show ?case
    unfolding split by (auto simp: Let_def dest!: Cons.IH split: if_splits)
qed

lemma name_groups_target_of:
  "name_groups d i groups (m, nm) = (m', nm') \<Longrightarrow> target_of m' q c = target_of m q c"
proof (induction groups arbitrary: i m nm)
  case Nil
  then show ?case by simp
next
  case (Cons g groups)
  have upd: "target_of (x\<lparr>start_state := v\<rparr>) q c = target_of x q c" for x :: dfa and v
    by (simp add: target_of_def)
  from Cons.prems show ?case
    by (auto simp: Let_def upd dest!: Cons.IH split: if_splits)
qed

lemma name_groups_outside:
  "name_groups d i groups (m, nm) = (m', nm') \<Longrightarrow> \<forall>g \<in> set groups. s \<notin> g \<Longrightarrow> nm' s = nm s"
proof (induction groups arbitrary: i m nm)
  case Nil
  then show ?case by simp
next
  case (Cons g groups)
  from Cons.prems show ?case
    by (auto simp: Let_def dest!: Cons.IH split: if_splits)
qed

lemma name_groups_inside:
  "name_groups d i groups (m, nm) = (m', nm') \<Longrightarrow> disjoint_groups groups \<Longrightarrow>
   j < length groups \<Longrightarrow> s \<in> groups ! j \<Longrightarrow> nm' s = Some (state_name_of (i + j))"
proof (induction groups arbitrary: i m nm j)
  case Nil
  then show ?case by simp
next
  case (Cons g groups)
  let ?nm1 = "\<lambda>state. if state \<in> g then Some (state_name_of i) else nm state"
  from Cons.prems(1) obtain m1 where
    rec: "name_groups d (Suc i) groups (m1, ?nm1) = (m', nm')"
    by (auto simp: Let_def split: if_splits)
  show ?case
  proof (cases j)
    case 0
    with Cons.prems have "s \<in> g" "\<forall>h \<in> set groups. s \<notin> h" by auto
    with name_groups_outside [OF rec, of s] 0 show ?thesis by simp
  next
    case (Suc k)
    with Cons.prems have "disjoint_groups groups" "k < length groups" "s \<in> groups ! k" by simp_all
    from Cons.IH [OF rec this] Suc show ?thesis by simp
  qed
qed

lemma name_groups_start_outside:
  "name_groups d i groups (m, nm) = (m', nm') \<Longrightarrow>
   \<forall>g \<in> set groups. \<forall>q. start_state d = Some q \<longrightarrow> q \<notin> g \<Longrightarrow> start_state m' = start_state m"
proof (induction groups arbitrary: i m nm)
  case Nil
  then show ?case by simp
next
  case (Cons g groups)
  from Cons.prems show ?case
    by (auto simp: Let_def dest!: Cons.IH split: if_splits option.splits)
qed

lemma name_groups_start_inside:
  "name_groups d i groups (m, nm) = (m', nm') \<Longrightarrow> disjoint_groups groups \<Longrightarrow>
   j < length groups \<Longrightarrow> start_state d = Some q0 \<Longrightarrow> q0 \<in> groups ! j \<Longrightarrow>
   start_state m' = Some (state_name_of (i + j))"
proof (induction groups arbitrary: i m nm j)
  case Nil
  then show ?case by simp
next
  case (Cons g groups)
  let ?nm1 = "\<lambda>state. if state \<in> g then Some (state_name_of i) else nm state"
  from Cons.prems(1) obtain m1 where
    rec: "name_groups d (Suc i) groups (m1, ?nm1) = (m', nm')" and
    m1: "q0 \<in> g \<longrightarrow> start_state m1 = Some (state_name_of i)"
    using Cons.prems(4) by (auto simp: Let_def split: if_splits)
  show ?case
  proof (cases j)
    case 0
    with Cons.prems have "q0 \<in> g" "\<forall>h \<in> set groups. q0 \<notin> h" by auto
    with name_groups_start_outside [OF rec] Cons.prems(4) m1 0 show ?thesis by simp
  next
    case (Suc k)
    with Cons.prems have "disjoint_groups groups" "k < length groups" "q0 \<in> groups ! k" by simp_all
    from Cons.IH [OF rec this(1,2) Cons.prems(4) this(3)] Suc show ?thesis by simp
  qed
qed

text \<open>What the second loop writes for symbol \<open>c\<close> from representative \<open>r\<close>.\<close>

definition copied :: "dfa \<Rightarrow> (string \<rightharpoonup> string) \<Rightarrow> string \<Rightarrow> string \<Rightarrow> string option \<Rightarrow> string option" where
  "copied d nm r c dflt =
     (case target_of d r c of None \<Rightarrow> dflt
      | Some t \<Rightarrow> (case nm t of None \<Rightarrow> dflt | Some n \<Rightarrow> Some n))"

lemma copy_row_fields [simp]:
  "states (copy_row row src nm m) = states m"
  "final_states (copy_row row src nm m) = final_states m"
  "start_state (copy_row row src nm m) = start_state m"
  by (induction row src nm m rule: copy_row.induct) (simp_all split: option.splits)

lemma copy_row_other: "q \<noteq> src \<Longrightarrow> target_of (copy_row row src nm m) q c = target_of m q c"
  by (induction row src nm m rule: copy_row.induct)
    (simp_all add: target_of_dfa_add_transition split: option.splits)

lemma copy_row_absent:
  "c \<notin> fst ` set row \<Longrightarrow> target_of (copy_row row src nm m) q c = target_of m q c"
  by (induction row src nm m rule: copy_row.induct)
    (simp_all add: target_of_dfa_add_transition split: option.splits)

lemma copy_row_target:
  assumes "distinct (map fst row)"
  shows "target_of (copy_row row src nm m) src c =
     (case map_of row c of None \<Rightarrow> target_of m src c
      | Some t \<Rightarrow> (case nm t of None \<Rightarrow> target_of m src c | Some n \<Rightarrow> Some n))"
  using assms
proof (induction row arbitrary: m)
  case Nil
  show ?case by simp
next
  case (Cons e row)
  obtain char target where e: "e = (char, target)" by (cases e)
  from Cons.prems have fresh: "char \<notin> fst ` set row" and dist: "distinct (map fst row)"
    by (simp_all add: e)
  show ?case
  proof (cases "c = char")
    case True
    with fresh have "map_of row c = None" by (simp add: map_of_eq_None_iff)
    show ?thesis
    proof (cases "nm target")
      case None
      with True fresh show ?thesis
        by (simp add: e copy_row_absent)
    next
      case (Some n)
      with True fresh show ?thesis
        by (simp add: e copy_row_absent target_of_dfa_add_transition)
    qed
  next
    case False
    show ?thesis
    proof (cases "nm target")
      case None
      with False Cons.IH [OF dist, of m] show ?thesis by (simp add: e)
    next
      case (Some n)
      from False have eq: "target_of (dfa_add_transition m src char n) src c = target_of m src c"
        by (simp add: target_of_dfa_add_transition)
      from Some Cons.IH [OF dist, of "dfa_add_transition m src char n"] show ?thesis
        unfolding eq using False by (simp add: e)
    qed
  qed
qed

lemma copy_items_target:
  "target_of (copy_row (items row) src nm m) src c =
     (case map_of row c of None \<Rightarrow> target_of m src c
      | Some t \<Rightarrow> (case nm t of None \<Rightarrow> target_of m src c | Some n \<Rightarrow> Some n))"
  using copy_row_target [OF distinct_items, of row src nm m c] by (simp add: map_of_items)

lemma link_groups_spec:
  assumes "length ns = length groups" "distinct ns"
    and "\<forall>g \<in> set groups. finite g \<and> g \<noteq> {}"
    and "\<forall>j < length groups. \<forall>s \<in> groups ! j. nm s = Some (ns ! j)"
  shows "\<exists>m'. link_groups ord d nm groups m = Inr m'
      \<and> states m' = states m \<and> final_states m' = final_states m \<and> start_state m' = start_state m
      \<and> (\<forall>j < length groups. \<exists>r \<in> groups ! j. \<forall>c.
            target_of m' (ns ! j) c = copied d nm r c (target_of m (ns ! j) c))
      \<and> (\<forall>q c. q \<notin> set ns \<longrightarrow> target_of m' q c = target_of m q c)"
  using assms
proof (induction groups arbitrary: ns m)
  case Nil
  then show ?case by simp
next
  case (Cons g groups)
  from Cons.prems(1) obtain n ns' where ns: "ns = n # ns'" "length ns' = length groups"
    by (cases ns) auto
  from Cons.prems(2) ns have dist: "distinct ns'" "n \<notin> set ns'" by simp_all
  from Cons.prems(3) have g: "finite g" "g \<noteq> {}" and rest: "\<forall>h \<in> set groups. finite h \<and> h \<noteq> {}"
    by simp_all
  have names: "\<forall>j < length groups. \<forall>s \<in> groups ! j. nm s = Some (ns' ! j)"
  proof (intro allI impI ballI)
    fix j s
    assume "j < length groups" "s \<in> groups ! j"
    with Cons.prems(4) [rule_format, of "Suc j" s] ns show "nm s = Some (ns' ! j)" by simp
  qed
  from py_list_set [OF g(1), of ord] g(2) obtain r rs where r: "py_list ord g = r # rs" "r \<in> g"
    by (cases "py_list ord g") auto
  from Cons.prems(4) [rule_format, of 0 r] r(2) ns have nr: "nm r = Some n" by simp
  define m1 where "m1 = (case map_of (transitions d) r of None \<Rightarrow> m
     | Some row \<Rightarrow> copy_row (items row) n nm m)"
  have step: "link_groups ord d nm (g # groups) m = link_groups ord d nm groups m1"
    by (simp add: r nr m1_def split: option.splits)
  have m1_fields: "states m1 = states m" "final_states m1 = final_states m"
    "start_state m1 = start_state m"
    by (simp_all add: m1_def split: option.splits)
  have m1_n: "target_of m1 n c = copied d nm r c (target_of m n c)" for c
    by (simp add: m1_def copied_def target_of_def [of d] copy_items_target split: option.splits)
  have m1_other: "target_of m1 q c = target_of m q c" if "q \<noteq> n" for q c
    using that by (simp add: m1_def copy_row_other split: option.splits)
  from Cons.IH [OF ns(2) dist(1) rest names, of m1] obtain m' where
    m': "link_groups ord d nm groups m1 = Inr m'"
      "states m' = states m1" "final_states m' = final_states m1" "start_state m' = start_state m1"
    and inner: "\<forall>j < length groups. \<exists>r \<in> groups ! j. \<forall>c.
            target_of m' (ns' ! j) c = copied d nm r c (target_of m1 (ns' ! j) c)"
    and outer: "\<forall>q c. q \<notin> set ns' \<longrightarrow> target_of m' q c = target_of m1 q c"
    by blast
  have "\<forall>j < length (g # groups). \<exists>r \<in> (g # groups) ! j. \<forall>c.
            target_of m' (ns ! j) c = copied d nm r c (target_of m (ns ! j) c)"
  proof (intro allI impI)
    fix j
    assume j: "j < length (g # groups)"
    show "\<exists>r \<in> (g # groups) ! j. \<forall>c.
            target_of m' (ns ! j) c = copied d nm r c (target_of m (ns ! j) c)"
    proof (cases j)
      case 0
      have "\<forall>c. target_of m' n c = copied d nm r c (target_of m n c)"
        using outer dist(2) m1_n by simp
      with 0 r(2) ns show ?thesis by auto
    next
      case (Suc k)
      with j have k: "k < length groups" by simp
      with inner obtain r' where r': "r' \<in> groups ! k"
        "\<forall>c. target_of m' (ns' ! k) c = copied d nm r' c (target_of m1 (ns' ! k) c)" by blast
      from k ns(2) dist(2) have "ns' ! k \<noteq> n" by (metis nth_mem)
      with r'(2) m1_other have "\<forall>c. target_of m' (ns' ! k) c = copied d nm r' c (target_of m (ns' ! k) c)"
        by simp
      with Suc r'(1) ns show ?thesis by auto
    qed
  qed
  moreover have "\<forall>q c. q \<notin> set ns \<longrightarrow> target_of m' q c = target_of m q c"
    using outer m1_other ns by simp
  ultimately show ?case
    using step m' m1_fields by simp
qed

text \<open>
  The automaton that the two rebuilding loops produce from a partition \<open>P\<close>: group \<open>j\<close>
  becomes state \<open>Sj\<close>, \<open>nm\<close> is \<open>state_name_map\<close>, and the transitions of \<open>Sj\<close> are those of
  one member of the group.
\<close>

definition quotient_of :: "dfa \<Rightarrow> string set list \<Rightarrow> (string \<rightharpoonup> string) \<Rightarrow> dfa \<Rightarrow> bool" where
  "quotient_of d P nm m \<longleftrightarrow>
     states m = state_name_of ` {..<length P}
   \<and> final_states m = {state_name_of j | j. j < length P \<and> (\<exists>s \<in> P ! j. s \<in> final_states d)}
   \<and> (\<forall>j < length P. \<forall>s \<in> P ! j. nm s = Some (state_name_of j))
   \<and> (\<forall>s. s \<notin> \<Union> (set P) \<longrightarrow> nm s = None)
   \<and> start_state m = (case start_state d of None \<Rightarrow> None | Some q \<Rightarrow> nm q)
   \<and> (\<forall>j < length P. \<exists>r \<in> P ! j. \<forall>c.
         target_of m (state_name_of j) c = (case target_of d r c of None \<Rightarrow> None | Some t \<Rightarrow> nm t))
   \<and> (\<forall>q c. q \<notin> state_name_of ` {..<length P} \<longrightarrow> target_of m q c = None)"

lemma finite_dfa_alphabet: "finite (dfa_alphabet d)"
  by (auto simp: dfa_alphabet_def split: option.splits)

lemma target_of_DFA [simp]: "target_of DFA q c = None"
  by (simp add: target_of_def DFA_def)

lemma in_Union_nth: "s \<in> \<Union> (set P) \<longleftrightarrow> (\<exists>j < length P. s \<in> P ! j)"
proof
  assume "s \<in> \<Union> (set P)"
  then obtain g where "g \<in> set P" "s \<in> g" by blast
  then show "\<exists>j < length P. s \<in> P ! j" by (auto simp: in_set_conv_nth)
next
  assume "\<exists>j < length P. s \<in> P ! j"
  then obtain j where "j < length P" "s \<in> P ! j" by blast
  then show "s \<in> \<Union> (set P)" using nth_mem by blast
qed

lemma minimize_dfa_quotient:
  assumes "finite (states d)" "finite (final_states d)"
  shows "\<exists>P nm m. minimize_dfa ord d = Inr m \<and> partition_ok d P
           \<and> stable d (dfa_alphabet d) P \<and> quotient_of d P nm m"
proof -
  from refine_loop_result [OF partition_ok_initial [OF assms] finite_dfa_alphabet, of ord]
  obtain P where P: "refine_loop ord d (dfa_alphabet d) (initial_partition d) = Inr P"
    "partition_ok d P" "stable d (dfa_alphabet d) P" by blast
  from P(2) have grp: "\<forall>g \<in> set P. finite g \<and> g \<noteq> {}" and dis: "disjoint_groups P"
    by (simp_all add: partition_ok_def)
  obtain m0 nm where ng: "name_groups d 0 P (DFA, Map.empty) = (m0, nm)"
    by (cases "name_groups d 0 P (DFA, Map.empty)")
  have st0: "states m0 = state_name_of ` {..<length P}"
    using name_groups_states [OF ng] by (simp add: DFA_def lessThan_atLeast0)
  have fin0: "final_states m0 = {state_name_of j | j. j < length P \<and> (\<exists>s \<in> P ! j. s \<in> final_states d)}"
    using name_groups_final [OF ng] by (simp add: DFA_def)
  have tgt0: "target_of m0 q c = None" for q c
    using name_groups_target_of [OF ng, of q c] by simp
  have nm_in: "\<forall>j < length P. \<forall>s \<in> P ! j. nm s = Some (state_name_of j)"
    using name_groups_inside [OF ng dis] by simp
  have nm_out: "\<forall>s. s \<notin> \<Union> (set P) \<longrightarrow> nm s = None"
    using name_groups_outside [OF ng] by simp
  have start0: "start_state m0 = (case start_state d of None \<Rightarrow> None | Some q \<Rightarrow> nm q)"
  proof (cases "start_state d")
    case None
    with name_groups_start_outside [OF ng] show ?thesis by (simp add: DFA_def)
  next
    case (Some q0)
    show ?thesis
    proof (cases "q0 \<in> \<Union> (set P)")
      case True
      then obtain j where j: "j < length P" "q0 \<in> P ! j" unfolding in_Union_nth by blast
      from name_groups_start_inside [OF ng dis j(1) Some j(2)] nm_in j Some show ?thesis by simp
    next
      case False
      with Some have "\<forall>g \<in> set P. \<forall>q. start_state d = Some q \<longrightarrow> q \<notin> g" by auto
      from name_groups_start_outside [OF ng this] nm_out False Some show ?thesis
        by (simp add: DFA_def)
    qed
  qed
  let ?ns = "map state_name_of [0..<length P]"
  have dist: "distinct ?ns" by (simp add: distinct_map inj_on_def)
  have names: "\<forall>j < length P. \<forall>s \<in> P ! j. nm s = Some (?ns ! j)" using nm_in by simp
  from link_groups_spec [OF _ dist grp names, of ord d m0] obtain m where
    m: "link_groups ord d nm P m0 = Inr m"
      "states m = states m0" "final_states m = final_states m0" "start_state m = start_state m0"
    and inner: "\<forall>j < length P. \<exists>r \<in> P ! j. \<forall>c.
        target_of m (?ns ! j) c = copied d nm r c (target_of m0 (?ns ! j) c)"
    and outer: "\<forall>q c. q \<notin> set ?ns \<longrightarrow> target_of m q c = target_of m0 q c"
    by auto
  have cop: "copied d nm r c None = (case target_of d r c of None \<Rightarrow> None | Some t \<Rightarrow> nm t)" for r c
    by (simp add: copied_def split: option.splits)
  have tg: "\<forall>j < length P. \<exists>r \<in> P ! j. \<forall>c.
      target_of m (state_name_of j) c = (case target_of d r c of None \<Rightarrow> None | Some t \<Rightarrow> nm t)"
  proof (intro allI impI)
    fix j
    assume j: "j < length P"
    with inner obtain r where "r \<in> P ! j"
      "\<forall>c. target_of m (?ns ! j) c = copied d nm r c (target_of m0 (?ns ! j) c)" by blast
    with j show "\<exists>r \<in> P ! j. \<forall>c.
      target_of m (state_name_of j) c = (case target_of d r c of None \<Rightarrow> None | Some t \<Rightarrow> nm t)"
      by (auto simp: tgt0 cop)
  qed
  have set_ns: "set ?ns = state_name_of ` {..<length P}" by (simp add: lessThan_atLeast0)
  have out: "\<forall>q c. q \<notin> state_name_of ` {..<length P} \<longrightarrow> target_of m q c = None"
    using outer tgt0 unfolding set_ns by simp
  have "quotient_of d P nm m"
    unfolding quotient_of_def using st0 fin0 nm_in nm_out start0 tg out m(2-4) by simp
  moreover have "minimize_dfa ord d = Inr m"
    by (simp add: minimize_dfa_def P(1) ng m(1))
  ultimately show ?thesis using P(2,3) by blast
qed

lemma index_from_in:
  "disjoint_groups P \<Longrightarrow> j < length P \<Longrightarrow> t \<in> P ! j \<Longrightarrow> index_from i t P = int (i + j)"
proof (induction P arbitrary: i j)
  case Nil
  then show ?case by simp
next
  case (Cons g P)
  show ?case
  proof (cases j)
    case 0
    with Cons.prems show ?thesis by simp
  next
    case (Suc k)
    with Cons.prems have k: "k < length P" "t \<in> P ! k" "disjoint_groups P" by simp_all
    from Cons.prems(1) k(1) have "g \<inter> P ! k = {}" by simp
    with k(2) have "t \<notin> g" by blast
    with Cons.IH [OF k(3,1,2), of "Suc i"] Suc show ?thesis by simp
  qed
qed

lemma index_from_out: "t \<notin> \<Union> (set P) \<Longrightarrow> index_from i t P = - 1"
  by (induction P arbitrary: i) auto

lemma target_in_alphabet:
  assumes "target_of d s c = Some t"
  shows "c \<in> dfa_alphabet d"
proof -
  from assms obtain row where row: "map_of (transitions d) s = Some row" "map_of row c = Some t"
    by (auto simp: target_of_def split: option.splits)
  from row(1) have "s \<in> set (keys (transitions d))"
    unfolding keys_def using in_items_iff [of s row "transitions d"] by force
  moreover from row(2) have "c \<in> set (keys row)"
    unfolding keys_def using in_items_iff [of c t row] by force
  ultimately show ?thesis using row(1) by (force simp: dfa_alphabet_def)
qed

lemma quotient_simulates:
  assumes ok: "partition_ok d P" and st: "stable d (dfa_alphabet d) P"
    and q: "quotient_of d P nm m"
    and tg: "\<forall>s c t. target_of d s c = Some t \<longrightarrow> t \<in> states d"
  shows "j < length P \<Longrightarrow> s \<in> P ! j \<Longrightarrow>
    dfa_accepts_from m (state_name_of j) w = dfa_accepts_from d s w"
proof (induction w arbitrary: j s)
  case Nil
  from ok Nil.prems(1) have hom: "P ! j \<subseteq> final_states d \<or> P ! j \<inter> final_states d = {}"
    by (simp add: partition_ok_def)
  from q have "final_states m = {state_name_of j | j. j < length P \<and> (\<exists>s \<in> P ! j. s \<in> final_states d)}"
    by (simp add: quotient_of_def)
  then have "state_name_of j \<in> final_states m \<longleftrightarrow> (\<exists>s \<in> P ! j. s \<in> final_states d)"
    using Nil.prems(1) by auto
  also have "\<dots> \<longleftrightarrow> s \<in> final_states d" using hom Nil.prems(2) by blast
  finally show ?case by simp
next
  case (Cons c w)
  from ok have dis: "disjoint_groups P" and cover: "\<Union> (set P) = states d \<union> final_states d"
    by (simp_all add: partition_ok_def)
  from q Cons.prems(1) obtain r where r: "r \<in> P ! j"
    and mr: "\<forall>c. target_of m (state_name_of j) c = (case target_of d r c of None \<Rightarrow> None | Some t \<Rightarrow> nm t)"
    unfolding quotient_of_def by blast
  from q have nm_in: "\<forall>j < length P. \<forall>s \<in> P ! j. nm s = Some (state_name_of j)"
    by (simp add: quotient_of_def)
  have located: "\<exists>k < length P. t \<in> P ! k" if "target_of d x c = Some t" for x t
  proof -
    from that tg have "t \<in> states d" by blast
    with cover have "t \<in> \<Union> (set P)" by simp
    then show ?thesis unfolding in_Union_nth .
  qed
  have gpi: "get_partition_index (Some t) P = int k" if "k < length P" "t \<in> P ! k" for t k
    using index_from_in [OF dis that, of 0] by (simp add: get_partition_index_def)
  show ?case
  proof (cases "c \<in> dfa_alphabet d")
    case False
    with target_in_alphabet have "target_of d s c = None" "target_of d r c = None"
      by (metis not_Some_eq)+
    with mr show ?thesis by simp
  next
    case True
    from st Cons.prems r True have same:
      "get_partition_index (target_of d s c) P = get_partition_index (target_of d r c) P"
      unfolding stable_def same_signature_def using nth_mem [OF Cons.prems(1)] by blast
    show ?thesis
    proof (cases "target_of d s c")
      case None
      have "target_of d r c = None"
      proof (rule ccontr)
        assume "target_of d r c \<noteq> None"
        then obtain t where t: "target_of d r c = Some t" by blast
        from located [OF t] obtain k where "k < length P" "t \<in> P ! k" by blast
        from gpi [OF this] same None t show False by (simp add: get_partition_index_def)
      qed
      with None mr show ?thesis by simp
    next
      case (Some t)
      from located [OF Some] obtain k where k: "k < length P" "t \<in> P ! k" by blast
      from gpi [OF k] same Some have idx: "get_partition_index (target_of d r c) P = int k" by simp
      then obtain t' where t': "target_of d r c = Some t'"
        by (cases "target_of d r c") (simp_all add: get_partition_index_def)
      from located [OF t'] obtain k' where k': "k' < length P" "t' \<in> P ! k'" by blast
      from gpi [OF k'] idx t' have "k' = k" by simp
      with k' nm_in have "nm t' = Some (state_name_of k)" by simp
      with mr t' have "target_of m (state_name_of j) c = Some (state_name_of k)" by simp
      with Some Cons.IH [OF k] show ?thesis by simp
    qed
  qed
qed

text \<open>
  C2. For every DFA whose state sets are finite, whose start state is declared and whose
  transition targets are declared, \<open>minimize_dfa\<close> returns an automaton, for every
  enumeration order, and that automaton accepts exactly the words the input accepts.
\<close>

theorem minimize_dfa_same_language:
  assumes "finite (states d)" "finite (final_states d)"
    and "start_state d = Some q0" "q0 \<in> states d"
    and "\<forall>s c t. target_of d s c = Some t \<longrightarrow> s \<in> states d \<and> t \<in> states d"
  shows "\<exists>m. minimize_dfa ord d = Inr m \<and> (\<forall>w. dfa_accepts m w = dfa_accepts d w)"
proof -
  from minimize_dfa_quotient [OF assms(1,2), of ord] obtain P nm m where
    m: "minimize_dfa ord d = Inr m" and ok: "partition_ok d P"
    and st: "stable d (dfa_alphabet d) P" and q: "quotient_of d P nm m" by blast
  from assms(5) have tg: "\<forall>s c t. target_of d s c = Some t \<longrightarrow> t \<in> states d" by blast
  from ok assms(4) have "q0 \<in> \<Union> (set P)" by (simp add: partition_ok_def)
  then obtain j where j: "j < length P" "q0 \<in> P ! j" unfolding in_Union_nth by blast
  from q j assms(3) have "start_state m = Some (state_name_of j)"
    by (simp add: quotient_of_def)
  with quotient_simulates [OF ok st q tg j] assms(3)
  have "\<forall>w. dfa_accepts m w = dfa_accepts d w" by (simp add: dfa_accepts_def)
  with m show ?thesis by blast
qed

definition merge_dfa :: dfa where
  "merge_dfa =
     \<lparr>start_state = Some ''A'', states = {''A'', ''B'', ''C''}, final_states = {''B'', ''C''},
      transitions = [(''A'', [(''a'', ''B'')]), (''B'', [(''a'', ''C'')]), (''C'', [(''a'', ''C'')])]\<rparr>"


lemma merge_dfa_minimized:
  "minimize_dfa sorted_list_of_set merge_dfa =
     Inr \<lparr>start_state = Some ''S0'', states = {''S0'', ''S1''}, final_states = {''S1''},
          transitions = [(''S0'', [(''a'', ''S1'')]), (''S1'', [(''a'', ''S1'')])]\<rparr>"
  by code_simp

lemma merge_dfa_endpoints:
  "\<forall>s c t. target_of merge_dfa s c = Some t \<longrightarrow> s \<in> states merge_dfa \<and> t \<in> states merge_dfa"
  by (auto simp: target_of_def merge_dfa_def split: if_splits)

theorem minimize_dfa_same_language_witness:
  "finite (states merge_dfa) \<and> finite (final_states merge_dfa)
   \<and> start_state merge_dfa = Some ''A'' \<and> ''A'' \<in> states merge_dfa
   \<and> (\<exists>m. minimize_dfa sorted_list_of_set merge_dfa = Inr m
         \<and> (\<forall>w. dfa_accepts m w = dfa_accepts merge_dfa w))"
proof -
  have h: "finite (states merge_dfa)" "finite (final_states merge_dfa)"
    "start_state merge_dfa = Some ''A''" "''A'' \<in> states merge_dfa"
    by (simp_all add: merge_dfa_def)
  from minimize_dfa_same_language [OF h merge_dfa_endpoints, of sorted_list_of_set] h
  show ?thesis by blast
qed

text \<open>
  A DFA in which no two states can be merged: its tables mention declared states only and
  any two distinct states are told apart by some word. Every DFA with the fewest states
  for its language is of this kind.
\<close>

definition pairwise_distinguishable :: "dfa \<Rightarrow> bool" where
  "pairwise_distinguishable d \<longleftrightarrow>
     (\<forall>p \<in> states d. \<forall>q \<in> states d. p \<noteq> q \<longrightarrow>
        (\<exists>w. dfa_accepts_from d p w \<noteq> dfa_accepts_from d q w))"

definition well_formed :: "dfa \<Rightarrow> bool" where
  "well_formed d \<longleftrightarrow>
     finite (states d) \<and> final_states d \<subseteq> states d
   \<and> (\<exists>q0. start_state d = Some q0 \<and> q0 \<in> states d)
   \<and> (\<forall>s c t. target_of d s c = Some t \<longrightarrow> s \<in> states d \<and> t \<in> states d)"

text \<open>
  C7. For a well-formed DFA whose states are pairwise distinguishable, \<open>minimize_dfa\<close>
  returns an automaton with as many states, and a bijection between the two state sets
  maps start state to start state, final states to final states and every transition
  to a transition; the result has no transition or final state outside its states.
\<close>

theorem minimize_dfa_minimal_isomorphic:
  assumes wf: "well_formed d" and dist: "pairwise_distinguishable d"
  shows "\<exists>m f. minimize_dfa ord d = Inr m
      \<and> card (states m) = card (states d)
      \<and> bij_betw f (states d) (states m)
      \<and> start_state m = map_option f (start_state d)
      \<and> (\<forall>q \<in> states d. f q \<in> final_states m \<longleftrightarrow> q \<in> final_states d)
      \<and> (\<forall>q \<in> states d. \<forall>c. target_of m (f q) c = map_option f (target_of d q c))
      \<and> final_states m \<subseteq> states m
      \<and> (\<forall>q c t. target_of m q c = Some t \<longrightarrow> q \<in> states m)"
proof -
  from wf have fin: "finite (states d)" and fsub: "final_states d \<subseteq> states d"
    and tg: "\<forall>s c t. target_of d s c = Some t \<longrightarrow> s \<in> states d \<and> t \<in> states d"
    by (simp_all add: well_formed_def)
  from wf obtain q0 where q0: "start_state d = Some q0" "q0 \<in> states d"
    unfolding well_formed_def by blast
  from fin fsub have ffin: "finite (final_states d)" by (rule rev_finite_subset)
  from minimize_dfa_quotient [OF fin ffin, of ord] obtain P nm m where
    m: "minimize_dfa ord d = Inr m" and ok: "partition_ok d P"
    and st: "stable d (dfa_alphabet d) P" and q: "quotient_of d P nm m" by blast
  from tg have tg': "\<forall>s c t. target_of d s c = Some t \<longrightarrow> t \<in> states d" by blast
  from ok fsub have cover: "\<Union> (set P) = states d" by (auto simp: partition_ok_def)
  from ok have nonempty: "\<forall>g \<in> set P. g \<noteq> {}" by (simp add: partition_ok_def)
  from q have
    qs: "states m = state_name_of ` {..<length P}" and
    qf: "final_states m = {state_name_of j | j. j < length P \<and> (\<exists>s \<in> P ! j. s \<in> final_states d)}" and
    qn: "\<forall>j < length P. \<forall>s \<in> P ! j. nm s = Some (state_name_of j)" and
    qstart: "start_state m = (case start_state d of None \<Rightarrow> None | Some q \<Rightarrow> nm q)" and
    qt: "\<forall>j < length P. \<exists>r \<in> P ! j. \<forall>c.
         target_of m (state_name_of j) c = (case target_of d r c of None \<Rightarrow> None | Some t \<Rightarrow> nm t)" and
    qo: "\<forall>q c. q \<notin> state_name_of ` {..<length P} \<longrightarrow> target_of m q c = None"
    by (simp_all add: quotient_of_def)
  have in_states: "s \<in> states d" if "j < length P" "s \<in> P ! j" for j s
    using that cover in_Union_nth [of s P] by blast
  have single: "s = t" if "j < length P" "s \<in> P ! j" "t \<in> P ! j" for j s t
  proof (rule ccontr)
    assume "s \<noteq> t"
    with dist in_states [OF that(1,2)] in_states [OF that(1,3)] obtain w where
      "dfa_accepts_from d s w \<noteq> dfa_accepts_from d t w"
      unfolding pairwise_distinguishable_def by blast
    with quotient_simulates [OF ok st q tg' that(1,2), of w]
      quotient_simulates [OF ok st q tg' that(1,3), of w]
    show False by simp
  qed
  define f where "f = (\<lambda>s. case nm s of None \<Rightarrow> s | Some n \<Rightarrow> n)"
  have f_in: "f s = state_name_of j" if "j < length P" "s \<in> P ! j" for j s
    using qn that by (simp add: f_def)
  have located: "\<exists>j < length P. s \<in> P ! j" if "s \<in> states d" for s
    using that cover in_Union_nth [of s P] by blast
  have inj: "inj_on f (states d)"
  proof (rule inj_onI)
    fix x y
    assume x: "x \<in> states d" and y: "y \<in> states d" and eq: "f x = f y"
    from located [OF x] obtain j where j: "j < length P" "x \<in> P ! j" by blast
    from located [OF y] obtain k where k: "k < length P" "y \<in> P ! k" by blast
    from eq f_in [OF j] f_in [OF k] have "j = k" by simp
    with j k show "x = y" using single by blast
  qed
  have img: "f ` states d = states m"
  proof (intro set_eqI iffI)
    fix n
    assume "n \<in> f ` states d"
    then obtain s where s: "s \<in> states d" "n = f s" by blast
    from located [OF s(1)] obtain j where j: "j < length P" "s \<in> P ! j" by blast
    with f_in [OF j] s(2) show "n \<in> states m" unfolding qs by blast
  next
    fix n
    assume "n \<in> states m"
    then obtain j where j: "j < length P" "n = state_name_of j" unfolding qs by blast
    from nonempty j(1) obtain s where s: "s \<in> P ! j" using nth_mem by blast
    from f_in [OF j(1) s] in_states [OF j(1) s] j(2) show "n \<in> f ` states d" by force
  qed
  from inj img have bij: "bij_betw f (states d) (states m)" by (simp add: bij_betw_def)
  then have card: "card (states m) = card (states d)" by (simp add: bij_betw_same_card)
  have start: "start_state m = map_option f (start_state d)"
  proof -
    from located [OF q0(2)] obtain j where j: "j < length P" "q0 \<in> P ! j" by blast
    with qn have "nm q0 = Some (state_name_of j)" by simp
    with qstart q0(1) f_in [OF j] show ?thesis by simp
  qed
  have final: "\<forall>s \<in> states d. f s \<in> final_states m \<longleftrightarrow> s \<in> final_states d"
  proof
    fix s
    assume "s \<in> states d"
    from located [OF this] obtain j where j: "j < length P" "s \<in> P ! j" by blast
    have "state_name_of j \<in> final_states m \<longleftrightarrow> (\<exists>t \<in> P ! j. t \<in> final_states d)"
      unfolding qf using j(1) by auto
    also have "\<dots> \<longleftrightarrow> s \<in> final_states d" using single [OF j] j(2) by blast
    finally show "f s \<in> final_states m \<longleftrightarrow> s \<in> final_states d" using f_in [OF j] by simp
  qed
  have trans: "\<forall>s \<in> states d. \<forall>c. target_of m (f s) c = map_option f (target_of d s c)"
  proof (intro ballI allI)
    fix s c
    assume "s \<in> states d"
    from located [OF this] obtain j where j: "j < length P" "s \<in> P ! j" by blast
    from qt j(1) obtain r where r: "r \<in> P ! j"
      "\<forall>c. target_of m (state_name_of j) c = (case target_of d r c of None \<Rightarrow> None | Some t \<Rightarrow> nm t)"
      by blast
    from single [OF j r(1)] have rs: "r = s" by simp
    show "target_of m (f s) c = map_option f (target_of d s c)"
    proof (cases "target_of d s c")
      case None
      with r(2) rs f_in [OF j] show ?thesis by simp
    next
      case (Some t)
      with tg have "t \<in> states d" by blast
      from located [OF this] obtain k where k: "k < length P" "t \<in> P ! k" by blast
      with qn have "nm t = Some (state_name_of k)" by simp
      with Some r(2) rs f_in [OF j] f_in [OF k] show ?thesis by simp
    qed
  qed
  have fsub': "final_states m \<subseteq> states m" unfolding qf qs by blast
  have src: "\<forall>x c t. target_of m x c = Some t \<longrightarrow> x \<in> states m"
    using qo unfolding qs by (metis option.distinct(1))
  from m card bij start final trans fsub' src show ?thesis by blast
qed

lemma scenario_dfa_well_formed: "well_formed scenario_dfa"
  by (auto simp: well_formed_def scenario_dfa_def target_of_def split: if_splits)

lemma scenario_dfa_distinguishable: "pairwise_distinguishable scenario_dfa"
proof -
  have "\<forall>p \<in> states scenario_dfa. \<forall>q \<in> states scenario_dfa. p \<noteq> q \<longrightarrow>
      (\<exists>w \<in> {[], [''b'']}. dfa_accepts_from scenario_dfa p w \<noteq> dfa_accepts_from scenario_dfa q w)"
    by (simp add: scenario_dfa_def target_of_def)
  then show ?thesis unfolding pairwise_distinguishable_def by blast
qed

theorem minimize_dfa_minimal_isomorphic_witness:
  "well_formed scenario_dfa \<and> pairwise_distinguishable scenario_dfa
   \<and> (\<exists>m f. minimize_dfa sorted_list_of_set scenario_dfa = Inr m
         \<and> card (states m) = card (states scenario_dfa)
         \<and> bij_betw f (states scenario_dfa) (states m))"
  using minimize_dfa_minimal_isomorphic [OF scenario_dfa_well_formed scenario_dfa_distinguishable,
      of sorted_list_of_set]
    scenario_dfa_well_formed scenario_dfa_distinguishable
  by blast

section \<open>Dependence on the enumeration order\<close>

text \<open>The element that \<open>list(s)[0]\<close> and \<open>next(iter(s))\<close> yield.\<close>

definition first_of :: "order \<Rightarrow> string set \<Rightarrow> string option" where
  "first_of ord s = (case py_list ord s of [] \<Rightarrow> None | x # _ \<Rightarrow> Some x)"

text \<open>The descending enumeration; the ascending one is \<open>sorted_list_of_set\<close>.\<close>

definition descending :: order where
  "descending s = rev (sorted_list_of_set s)"

lemma is_matching_order:
  "finite alphabet \<Longrightarrow>
   is_matching ord1 dfa alphabet partitions first state = is_matching ord2 dfa alphabet partitions first state"
  by (simp add: is_matching_iff)

lemma split_group_order:
  assumes "finite alphabet" "first_of ord1 grp = first_of ord2 grp"
  shows "split_group ord1 dfa alphabet partitions grp = split_group ord2 dfa alphabet partitions grp"
proof (cases "card grp \<le> 1")
  case True
  then show ?thesis by (simp add: split_group_def)
next
  case False
  from py_list_nonempty [OF False, of ord1] obtain f1 r1 where
    l1: "py_list ord1 grp = f1 # r1" "grp = insert f1 (set r1)" "f1 \<notin> set r1" by blast
  from py_list_nonempty [OF False, of ord2] obtain f2 r2 where
    l2: "py_list ord2 grp = f2 # r2" "grp = insert f2 (set r2)" "f2 \<notin> set r2" by blast
  from assms(2) l1(1) l2(1) have f: "f1 = f2" by (simp add: first_of_def)
  from l1(2,3) have "set r1 = grp - {f1}" by auto
  moreover from l2(2,3) have "set r2 = grp - {f2}" by auto
  ultimately have r: "set r1 = set r2" using f by simp
  have m: "is_matching ord1 dfa alphabet partitions f2 state
      = is_matching ord2 dfa alphabet partitions f2 state" for state
    by (rule is_matching_order [OF assms(1)])
  have "split_group ord1 dfa alphabet partitions grp =
     (if {state \<in> set r2. \<not> is_matching ord2 dfa alphabet partitions f2 state} \<noteq> {}
      then Inr ([insert f2 {state \<in> set r2. is_matching ord2 dfa alphabet partitions f2 state},
                 {state \<in> set r2. \<not> is_matching ord2 dfa alphabet partitions f2 state}], True)
      else Inr ([grp], False))"
    using split_group_unfold [OF False l1(1), of dfa alphabet partitions] by (simp only: f r m)
  also have "\<dots> = split_group ord2 dfa alphabet partitions grp"
    by (rule split_group_unfold [OF False l2(1), symmetric])
  finally show ?thesis .
qed

lemma split_group_subsets:
  assumes "split_group ord dfa alphabet partitions grp = Inr (parts, split)"
  shows "\<forall>p \<in> set parts. p \<subseteq> grp"
proof (cases "card grp \<le> 1")
  case True
  with assms show ?thesis by (auto simp: split_group_def)
next
  case False
  from py_list_nonempty [OF False, of ord] obtain first rest where
    l: "py_list ord grp = first # rest" "grp = insert first (set rest)" by blast
  from assms show ?thesis
    unfolding split_group_unfold [OF False l(1)] using l(2) by (auto split: if_splits)
qed

lemma refine_pass_subsets:
  assumes "refine_pass ord dfa alphabet partitions groups = Inr (new_partitions, did_split_occur)"
    and "\<forall>g \<in> set groups. g \<subseteq> U"
  shows "\<forall>p \<in> set new_partitions. p \<subseteq> U"
  using assms
proof (induction groups arbitrary: new_partitions did_split_occur)
  case Nil
  then show ?case by simp
next
  case (Cons grp groups)
  from Cons.prems(1) obtain parts split rest_parts rest_split where
    sg: "split_group ord dfa alphabet partitions grp = Inr (parts, split)" and
    rp: "refine_pass ord dfa alphabet partitions groups = Inr (rest_parts, rest_split)" and
    res: "new_partitions = parts @ rest_parts"
    by (rule refine_pass_Cons_Inr)
  from Cons.prems(2) have "grp \<subseteq> U" "\<forall>g \<in> set groups. g \<subseteq> U" by simp_all
  with split_group_subsets [OF sg] Cons.IH [OF rp] show ?case unfolding res by auto
qed

lemma refine_pass_order:
  assumes "finite alphabet" "\<forall>g \<in> set groups. first_of ord1 g = first_of ord2 g"
  shows "refine_pass ord1 dfa alphabet partitions groups = refine_pass ord2 dfa alphabet partitions groups"
  using assms(2)
proof (induction groups)
  case Nil
  show ?case by simp
next
  case (Cons grp groups)
  then have h: "first_of ord1 grp = first_of ord2 grp"
    and rp: "refine_pass ord1 dfa alphabet partitions groups = refine_pass ord2 dfa alphabet partitions groups"
    by simp_all
  have sg: "split_group ord1 dfa alphabet partitions grp = split_group ord2 dfa alphabet partitions grp"
    by (rule split_group_order [OF assms(1) h])
  show ?case by (simp only: refine_pass.simps sg rp)
qed

lemma refine_loop_order:
  assumes "finite alphabet" "\<forall>g. g \<subseteq> U \<longrightarrow> first_of ord1 g = first_of ord2 g"
    and "\<forall>g \<in> set partitions. g \<subseteq> U"
  shows "refine_loop ord1 dfa alphabet partitions = refine_loop ord2 dfa alphabet partitions
       \<and> (\<forall>final. refine_loop ord1 dfa alphabet partitions = Inr final \<longrightarrow> (\<forall>g \<in> set final. g \<subseteq> U))"
  using assms
proof (induction ord1 dfa alphabet partitions rule: refine_loop.induct)
  case (1 ord1 dfa alphabet partitions)
  from "1.prems"(2,3) have heads: "\<forall>g \<in> set partitions. first_of ord1 g = first_of ord2 g" by blast
  have pass: "refine_pass ord1 dfa alphabet partitions partitions
      = refine_pass ord2 dfa alphabet partitions partitions"
    by (rule refine_pass_order [OF "1.prems"(1) heads])
  from refine_pass_total [of ord1 dfa alphabet partitions partitions]
  obtain new_partitions did_split_occur where
    rp: "refine_pass ord1 dfa alphabet partitions partitions = Inr (new_partitions, did_split_occur)"
    by force
  have sub: "\<forall>p \<in> set new_partitions. p \<subseteq> U"
    by (rule refine_pass_subsets [OF rp "1.prems"(3)])
  from pass rp have rp2:
    "refine_pass ord2 dfa alphabet partitions partitions = Inr (new_partitions, did_split_occur)"
    by simp
  have u1: "refine_loop ord1 dfa alphabet partitions =
      (if did_split_occur then refine_loop ord1 dfa alphabet new_partitions else Inr new_partitions)"
    by (subst refine_loop.simps) (simp add: rp)
  have u2: "refine_loop ord2 dfa alphabet partitions =
      (if did_split_occur then refine_loop ord2 dfa alphabet new_partitions else Inr new_partitions)"
    by (subst refine_loop.simps) (simp add: rp2)
  show ?case
  proof (cases did_split_occur)
    case True
    from "1.IH" [OF rp refl True "1.prems"(1,2) sub] show ?thesis
      unfolding u1 u2 using True by simp
  next
    case False
    with sub show ?thesis unfolding u1 u2 by simp
  qed
qed

lemma link_groups_order:
  assumes "\<forall>g \<in> set groups. first_of ord1 g = first_of ord2 g"
  shows "link_groups ord1 dfa nm groups m = link_groups ord2 dfa nm groups m"
  using assms
proof (induction groups arbitrary: m)
  case Nil
  show ?case by simp
next
  case (Cons g groups)
  then have h: "first_of ord1 g = first_of ord2 g"
    and ih: "\<And>m. link_groups ord1 dfa nm groups m = link_groups ord2 dfa nm groups m"
    by simp_all
  show ?case
  proof (cases "py_list ord1 g")
    case Nil
    with h have "py_list ord2 g = []" by (simp add: first_of_def split: list.splits)
    with Nil show ?thesis by simp
  next
    case (Cons r rs)
    with h obtain rs' where "py_list ord2 g = r # rs'"
      by (auto simp: first_of_def split: list.splits)
    with Cons ih show ?thesis by (simp split: option.splits)
  qed
qed

lemma initial_partition_subsets:
  "\<forall>g \<in> set (initial_partition d). g \<subseteq> states d \<union> final_states d"
  by (auto simp: initial_partition_def Let_def)

text \<open>
  Where the enumeration order enters \<open>minimize_dfa\<close>: only through the element enumerated
  first from each set of states. Two orders that agree on that element for every subset
  of \<open>states \<union> final_states\<close> give the same automaton, whatever order they give the
  alphabet and the other members of a group.
\<close>

lemma minimize_dfa_first_elements:
  assumes "\<forall>g. g \<subseteq> states d \<union> final_states d \<longrightarrow> first_of ord1 g = first_of ord2 g"
  shows "minimize_dfa ord1 d = minimize_dfa ord2 d"
proof -
  from refine_loop_order [OF finite_dfa_alphabet assms initial_partition_subsets, of d]
  have loop: "refine_loop ord1 d (dfa_alphabet d) (initial_partition d)
      = refine_loop ord2 d (dfa_alphabet d) (initial_partition d)"
    and sub: "\<forall>final. refine_loop ord1 d (dfa_alphabet d) (initial_partition d) = Inr final
      \<longrightarrow> (\<forall>g \<in> set final. g \<subseteq> states d \<union> final_states d)"
    by blast+
  show ?thesis
  proof (cases "refine_loop ord1 d (dfa_alphabet d) (initial_partition d)")
    case (Inl e)
    from loop Inl have l2: "refine_loop ord2 d (dfa_alphabet d) (initial_partition d) = Inl e"
      by simp
    show ?thesis unfolding minimize_dfa_def Inl l2 by simp
  next
    case (Inr P)
    from loop Inr have l2: "refine_loop ord2 d (dfa_alphabet d) (initial_partition d) = Inr P"
      by simp
    from sub Inr have "\<forall>g \<in> set P. g \<subseteq> states d \<union> final_states d" by blast
    with assms have "\<forall>g \<in> set P. first_of ord1 g = first_of ord2 g" by blast
    from link_groups_order [OF this] show ?thesis
      unfolding minimize_dfa_def Inr l2 by (simp split: prod.splits)
  qed
qed

text \<open>
  C4. Two runs of \<open>minimize_dfa\<close> on the same DFA are to return the same automaton,
  whatever order the sets are enumerated in. The code does not do so. On the three-state
  DFA that \<open>convert_nfa_to_dfa\<close> returns for the NFA of the specification's scenario, a
  run that enumerates the group \<open>{S0, S1}\<close> as \<open>[S0, S1]\<close> and a run that enumerates it
  as \<open>[S1, S0]\<close> take different reference states for the split: the first run returns
  start state \<open>S0\<close> with the rows \<open>S0: a \<rightarrow> S1\<close> and \<open>S1: a \<rightarrow> S1, b \<rightarrow> S2\<close>, the second
  start state \<open>S1\<close> with the rows \<open>S0: a \<rightarrow> S0, b \<rightarrow> S2\<close> and \<open>S1: a \<rightarrow> S0\<close>.
\<close>

theorem minimize_dfa_order_sensitive:
  "py_list sorted_list_of_set {''S0'', ''S1''} = [''S0'', ''S1'']
   \<and> py_list descending {''S0'', ''S1''} = [''S1'', ''S0'']
   \<and> minimize_dfa sorted_list_of_set scenario_dfa =
     Inr \<lparr>start_state = Some ''S0'', states = {''S0'', ''S1'', ''S2''}, final_states = {''S2''},
          transitions = [(''S0'', [(''a'', ''S1'')]), (''S1'', [(''a'', ''S1''), (''b'', ''S2'')]),
                         (''S2'', [])]\<rparr>
   \<and> minimize_dfa descending scenario_dfa =
     Inr \<lparr>start_state = Some ''S1'', states = {''S0'', ''S1'', ''S2''}, final_states = {''S2''},
          transitions = [(''S0'', [(''a'', ''S0''), (''b'', ''S2'')]), (''S1'', [(''a'', ''S0'')]),
                         (''S2'', [])]\<rparr>
   \<and> minimize_dfa sorted_list_of_set scenario_dfa \<noteq> minimize_dfa descending scenario_dfa"
  by code_simp

section \<open>The JSON document, \<open>deserialize_nfa_json\<close> and \<open>DFA.to_json\<close>\<close>

text \<open>
  The parsed document (what \<open>json.load\<close> returns and \<open>json.dumps\<close> is given): an object
  whose values are \<open>null\<close>, a string or a state object; the values of a state object are a
  Boolean, a string or a list of strings. Writing the text with \<open>json.dumps\<close> and reading
  it back with \<open>json.load\<close> returns the same object, key order included, so the model
  passes the object itself.
\<close>

datatype field = FBool bool | FStr string | FList "string list"

datatype jvalue = JNull | JStr string | JObj "(string \<times> field) list"

type_synonym document = "(string \<times> jvalue) list"

text \<open>Python's truth value of a field, as \<open>if is_final\<close> takes it.\<close>

fun truthy :: "field \<Rightarrow> bool" where
  "truthy (FBool b) = b"
| "truthy (FStr s) = (s \<noteq> [])"
| "truthy (FList l) = (l \<noteq> [])"

definition missing_start :: string where
  "missing_start = ''JSON invalid: Missing '' @ [CHR 0x27] @ ''startingState'' @ [CHR 0x27] @ '' key.''"

text \<open>
  Step 4 of \<open>deserialize_nfa_json\<close>: the loop over the \<open>items()\<close> of one state object.
  A Boolean under a symbol would be stored as a target by the source.
\<close>

fun parse_transitions :: "string \<Rightarrow> (string \<times> field) list \<Rightarrow> nfa \<Rightarrow> error + nfa" where
  "parse_transitions state_name [] nfa = Inr nfa"
| "parse_transitions state_name ((symbol, target) # rest) nfa =
     (if symbol = ''isTerminatingState'' then parse_transitions state_name rest nfa
      else case target of
        FList ts \<Rightarrow>
          parse_transitions state_name rest
            (foldl (\<lambda>n t_state. nfa_add_transition n state_name symbol t_state) nfa ts)
      | FStr t \<Rightarrow> parse_transitions state_name rest (nfa_add_transition nfa state_name symbol t)
      | FBool b \<Rightarrow> Inl Unsupported)"

text \<open>
  Steps 2 and 3: the loop over \<open>data.items()\<close>. \<open>state_data.get\<close> raises \<open>AttributeError\<close>
  when the value is not an object.
\<close>

fun parse_states :: "(string \<times> jvalue) list \<Rightarrow> nfa \<Rightarrow> error + nfa" where
  "parse_states [] nfa = Inr nfa"
| "parse_states ((key, value) # rest) nfa =
     (if key = ''startingState'' then parse_states rest nfa
      else case value of
        JObj state_data \<Rightarrow>
          (let is_final = truthy (case map_of state_data ''isTerminatingState'' of
                                   None \<Rightarrow> FBool False | Some v \<Rightarrow> v)
           in case parse_transitions key (items state_data) (add_state nfa key is_final) of
                Inl e \<Rightarrow> Inl e
              | Inr nfa' \<Rightarrow> parse_states rest nfa')
      | _ \<Rightarrow> Inl AttributeError)"

text \<open>
  \<open>deserialize_nfa_json\<close>. The argument is the content of the file at \<open>file_path\<close>, \<open>None\<close>
  when there is no such file. An object under \<open>startingState\<close> would become the start
  state of the source's NFA.
\<close>

definition deserialize_nfa_json :: "document option \<Rightarrow> error + nfa" where
  "deserialize_nfa_json file =
     (case file of
        None \<Rightarrow> Inl FileNotFoundError
      | Some data \<Rightarrow>
          (case map_of data ''startingState'' of
             None \<Rightarrow> Inl (ValueError missing_start)
           | Some JNull \<Rightarrow> parse_states (items data) (NFA None)
           | Some (JStr start) \<Rightarrow> parse_states (items data) (NFA (Some start))
           | Some (JObj _) \<Rightarrow> Inl Unsupported))"

text \<open>
  \<open>DFA.to_json\<close>, up to \<open>json.dumps\<close>: \<open>state_entry\<close> is \<open>state_data\<close> for one state, the
  fold is the loop over \<open>sorted(list(self.states))\<close>.
\<close>

definition state_entry :: "dfa \<Rightarrow> string \<Rightarrow> (string \<times> field) list" where
  "state_entry dfa state =
     foldl (\<lambda>state_data (symbol, target). dict_set state_data symbol (FStr target))
       [(''isTerminatingState'', FBool (state \<in> final_states dfa))]
       (case map_of (transitions dfa) state of None \<Rightarrow> [] | Some row \<Rightarrow> items row)"

definition to_json :: "dfa \<Rightarrow> document" where
  "to_json dfa =
     foldl (\<lambda>output state. dict_set output state (JObj (state_entry dfa state)))
       [(''startingState'', case start_state dfa of None \<Rightarrow> JNull | Some s \<Rightarrow> JStr s)]
       (sorted_list_of_set (states dfa))"

text \<open>\<open>nfa.transitions[q][c]\<close>, \<open>None\<close> when a key is missing.\<close>

definition targets_of :: "nfa \<Rightarrow> string \<Rightarrow> string \<Rightarrow> string list option" where
  "targets_of nfa state symbol =
     (case map_of (transitions nfa) state of None \<Rightarrow> None | Some row \<Rightarrow> map_of row symbol)"

lemma dict_set_fresh: "k \<notin> fst ` set d \<Longrightarrow> dict_set d k v = d @ [(k, v)]"
  by (induction d) auto

lemma foldl_dict_set_fresh:
  assumes "distinct (map kf xs)" "\<forall>x \<in> set xs. kf x \<notin> fst ` set d"
  shows "foldl (\<lambda>acc x. dict_set acc (kf x) (vf x)) d xs = d @ map (\<lambda>x. (kf x, vf x)) xs"
  using assms
proof (induction xs arbitrary: d)
  case Nil
  show ?case by simp
next
  case (Cons x xs)
  from Cons.prems have fresh: "kf x \<notin> fst ` set d" by simp
  have step: "dict_set d (kf x) (vf x) = d @ [(kf x, vf x)]" by (rule dict_set_fresh [OF fresh])
  have "\<forall>y \<in> set xs. kf y \<notin> fst ` set (d @ [(kf x, vf x)])"
  proof
    fix y
    assume y: "y \<in> set xs"
    from Cons.prems(1) have "kf x \<notin> kf ` set xs" by simp
    with y have "kf y \<noteq> kf x" by (metis imageI)
    moreover from y Cons.prems(2) have "kf y \<notin> fst ` set d" by simp
    ultimately show "kf y \<notin> fst ` set (d @ [(kf x, vf x)])" by simp
  qed
  with Cons.IH [of "d @ [(kf x, vf x)]"] Cons.prems(1) show ?case
    by (simp add: step)
qed

lemma targets_of_add_state [simp]: "targets_of (add_state n q f) p c = targets_of n p c"
  by (auto simp: targets_of_def add_state_def map_of_dict_set split: option.splits)

lemma targets_of_add_transition:
  "targets_of (nfa_add_transition n p s t) q c =
     (if q = p \<and> c = s
      then Some (case targets_of n p s of None \<Rightarrow> [t]
                 | Some ts \<Rightarrow> if t \<in> set ts then ts else ts @ [t])
      else targets_of n q c)"
  by (auto simp: targets_of_def nfa_add_transition_def Let_def map_of_dict_set split: option.splits)

lemma fields_nfa_add_transition [simp]:
  "states (nfa_add_transition n p s t) = states n"
  "final_states (nfa_add_transition n p s t) = final_states n"
  "start_state (nfa_add_transition n p s t) = start_state n"
  by (simp_all add: nfa_add_transition_def Let_def)

lemma parse_single_targets:
  assumes "distinct (map fst row)" "''isTerminatingState'' \<notin> fst ` set row"
    and "\<forall>c \<in> fst ` set row. targets_of n q c = None"
  shows "\<exists>n'. parse_transitions q (map (\<lambda>(c, t). (c, FStr t)) row) n = Inr n'
      \<and> states n' = states n \<and> final_states n' = final_states n \<and> start_state n' = start_state n
      \<and> (\<forall>p c. targets_of n' p c =
            (if p = q then (case map_of row c of None \<Rightarrow> targets_of n q c | Some t \<Rightarrow> Some [t])
             else targets_of n p c))"
  using assms
proof (induction row arbitrary: n)
  case Nil
  show ?case by simp
next
  case (Cons e row)
  obtain c t where e: "e = (c, t)" by (cases e)
  from Cons.prems e have c: "c \<noteq> ''isTerminatingState''" "c \<notin> fst ` set row"
    and row: "distinct (map fst row)" "''isTerminatingState'' \<notin> fst ` set row"
    and none: "targets_of n q c = None" "\<forall>c' \<in> fst ` set row. targets_of n q c' = None"
    by auto
  let ?n1 = "nfa_add_transition n q c t"
  have n1: "targets_of ?n1 p c' = (if p = q \<and> c' = c then Some [t] else targets_of n p c')" for p c'
    using none(1) by (simp add: targets_of_add_transition)
  have "\<forall>c' \<in> fst ` set row. targets_of ?n1 q c' = None"
    using none(2) c(2) n1 by auto
  from Cons.IH [OF row this] obtain n' where
    n': "parse_transitions q (map (\<lambda>(c, t). (c, FStr t)) row) ?n1 = Inr n'"
      "states n' = states ?n1" "final_states n' = final_states ?n1" "start_state n' = start_state ?n1"
      "\<forall>p c'. targets_of n' p c' =
            (if p = q then (case map_of row c' of None \<Rightarrow> targets_of ?n1 q c' | Some t \<Rightarrow> Some [t])
             else targets_of ?n1 p c')"
    by blast
  have "map_of row c = None" using c(2) by (simp add: map_of_eq_None_iff)
  with n'(5) n1 have "\<forall>p c'. targets_of n' p c' =
            (if p = q then (case map_of (e # row) c' of None \<Rightarrow> targets_of n q c' | Some t \<Rightarrow> Some [t])
             else targets_of n p c')"
    by (auto simp: e split: option.splits)
  with n'(1-4) c(1) show ?case by (simp add: e)
qed

lemma state_entry_unfold:
  assumes "\<forall>c t. target_of d q c = Some t \<longrightarrow> c \<noteq> ''isTerminatingState''"
  shows "state_entry d q = (''isTerminatingState'', FBool (q \<in> final_states d))
     # map (\<lambda>(c, t). (c, FStr t))
         (case map_of (transitions d) q of None \<Rightarrow> [] | Some row \<Rightarrow> items row)"
proof -
  let ?row = "case map_of (transitions d) q of None \<Rightarrow> [] | Some row \<Rightarrow> items row"
  have dist: "distinct (map fst ?row)" by (simp add: distinct_items split: option.splits)
  have fresh: "\<forall>x \<in> set ?row. fst x \<notin> fst ` set [(''isTerminatingState'', FBool (q \<in> final_states d))]"
  proof
    fix x
    assume x: "x \<in> set ?row"
    obtain c t where ct: "x = (c, t)" by (cases x)
    have "target_of d q c = Some t"
    proof (cases "map_of (transitions d) q")
      case None
      with x show ?thesis by simp
    next
      case (Some row)
      with x ct have "map_of row c = Some t" by (simp add: in_items_iff)
      with Some show ?thesis by (simp add: target_of_def)
    qed
    with assms ct show "fst x \<notin> fst ` set [(''isTerminatingState'', FBool (q \<in> final_states d))]"
      by auto
  qed
  have fn: "(\<lambda>state_data (symbol, target). dict_set state_data symbol (FStr target))
      = (\<lambda>acc x. dict_set acc (fst x) (FStr (snd x)))"
    by (auto simp: fun_eq_iff)
  have "state_entry d q = foldl (\<lambda>acc x. dict_set acc (fst x) (FStr (snd x)))
      [(''isTerminatingState'', FBool (q \<in> final_states d))] ?row"
    unfolding state_entry_def fn by (rule refl)
  also have "\<dots> = [(''isTerminatingState'', FBool (q \<in> final_states d))]
      @ map (\<lambda>x. (fst x, FStr (snd x))) ?row"
    by (rule foldl_dict_set_fresh [OF dist fresh])
  finally show ?thesis by (simp add: case_prod_beta)
qed

lemma parse_dfa_states:
  assumes "distinct qs" "''startingState'' \<notin> set qs"
    and "\<forall>q \<in> set qs. \<forall>c t. target_of d q c = Some t \<longrightarrow> c \<noteq> ''isTerminatingState''"
    and "\<forall>q \<in> set qs. \<forall>c. targets_of n q c = None"
  shows "\<exists>n'. parse_states (map (\<lambda>q. (q, JObj (state_entry d q))) qs) n = Inr n'
      \<and> states n' = states n \<union> set qs
      \<and> final_states n' = final_states n \<union> {q \<in> set qs. q \<in> final_states d}
      \<and> start_state n' = start_state n
      \<and> (\<forall>p c. targets_of n' p c =
            (if p \<in> set qs then map_option (\<lambda>t. [t]) (target_of d p c) else targets_of n p c))"
  using assms
proof (induction qs arbitrary: n)
  case Nil
  show ?case by simp
next
  case (Cons q qs)
  from Cons.prems have q: "q \<noteq> ''startingState''" "q \<notin> set qs"
    and sym: "\<forall>c t. target_of d q c = Some t \<longrightarrow> c \<noteq> ''isTerminatingState''"
    and rest: "distinct qs" "''startingState'' \<notin> set qs"
      "\<forall>p \<in> set qs. \<forall>c t. target_of d p c = Some t \<longrightarrow> c \<noteq> ''isTerminatingState''"
    and none: "\<forall>c. targets_of n q c = None" "\<forall>p \<in> set qs. \<forall>c. targets_of n p c = None"
    by auto
  define row where "row = (case map_of (transitions d) q of None \<Rightarrow> [] | Some r \<Rightarrow> items r)"
  have entry: "state_entry d q = (''isTerminatingState'', FBool (q \<in> final_states d))
     # map (\<lambda>(c, t). (c, FStr t)) row"
    unfolding row_def by (rule state_entry_unfold [OF sym])
  have dist: "distinct (map fst row)"
    by (simp add: row_def distinct_items split: option.splits)
  have row_map: "map_of row c = target_of d q c" for c
    by (simp add: row_def target_of_def map_of_items split: option.splits)
  have nokey: "''isTerminatingState'' \<notin> fst ` set row"
  proof -
    have "target_of d q ''isTerminatingState'' = None"
      using sym by (cases "target_of d q ''isTerminatingState''") auto
    then have "map_of row ''isTerminatingState'' = None" by (simp only: row_map)
    then show ?thesis by (simp only: map_of_eq_None_iff) simp
  qed
  have dist_entry: "distinct (map fst (state_entry d q))"
  proof -
    have m: "map fst (map (\<lambda>(c, t). (c, FStr t)) row) = map fst row"
      by (induction row) auto
    have "map fst (state_entry d q) = ''isTerminatingState'' # map fst row"
      unfolding entry using m by (simp only: list.map fst_conv)
    with dist nokey show ?thesis by simp
  qed
  have items_entry: "items (state_entry d q) = state_entry d q"
    by (rule items_distinct_id [OF dist_entry])
  have flag: "map_of (state_entry d q) ''isTerminatingState'' = Some (FBool (q \<in> final_states d))"
    unfolding entry by simp
  let ?n0 = "add_state n q (q \<in> final_states d)"
  have "\<forall>c \<in> fst ` set row. targets_of ?n0 q c = None" using none(1) by simp
  from parse_single_targets [OF dist nokey this] obtain n1 where
    n1: "parse_transitions q (map (\<lambda>(c, t). (c, FStr t)) row) ?n0 = Inr n1"
      "states n1 = states ?n0" "final_states n1 = final_states ?n0" "start_state n1 = start_state ?n0"
      "\<forall>p c. targets_of n1 p c =
          (if p = q then (case map_of row c of None \<Rightarrow> targets_of ?n0 q c | Some t \<Rightarrow> Some [t])
           else targets_of ?n0 p c)"
    by blast
  have n1_q: "targets_of n1 q c = map_option (\<lambda>t. [t]) (target_of d q c)" for c
    using n1(5) none(1) row_map [of c] by (simp split: option.splits)
  have n1_other: "targets_of n1 p c = targets_of n p c" if "p \<noteq> q" for p c
    using n1(5) that by simp
  have pt: "parse_transitions q (items (state_entry d q)) ?n0 = Inr n1"
    by (simp only: items_entry) (simp add: entry n1(1))
  have "\<forall>p \<in> set qs. \<forall>c. targets_of n1 p c = None"
  proof (intro ballI allI)
    fix p c
    assume p: "p \<in> set qs"
    with q(2) have "p \<noteq> q" by blast
    from n1_other [OF this, of c] none(2) p show "targets_of n1 p c = None" by simp
  qed
  from Cons.IH [OF rest this] obtain n' where
    n': "parse_states (map (\<lambda>q. (q, JObj (state_entry d q))) qs) n1 = Inr n'"
      "states n' = states n1 \<union> set qs"
      "final_states n' = final_states n1 \<union> {q \<in> set qs. q \<in> final_states d}"
      "start_state n' = start_state n1"
      "\<forall>p c. targets_of n' p c =
            (if p \<in> set qs then map_option (\<lambda>t. [t]) (target_of d p c) else targets_of n1 p c)"
    by blast
  have step: "parse_states (map (\<lambda>q. (q, JObj (state_entry d q))) (q # qs)) n = Inr n'"
    using q(1) flag pt n'(1) by simp
  have tg: "\<forall>p c. targets_of n' p c =
      (if p \<in> set (q # qs) then map_option (\<lambda>t. [t]) (target_of d p c) else targets_of n p c)"
    using n'(5) n1_q n1_other q(2) by auto
  have st: "states n' = states n \<union> set (q # qs)" using n'(2) n1(2) by auto
  have fi: "final_states n' = final_states n \<union> {p \<in> set (q # qs). p \<in> final_states d}"
    using n'(3) n1(3) by auto
  have sta: "start_state n' = start_state n" using n'(4) n1(4) by simp
  from step st fi sta tg show ?case by blast
qed

lemma to_json_unfold:
  assumes "finite (states d)" "''startingState'' \<notin> states d"
  shows "to_json d = (''startingState'', case start_state d of None \<Rightarrow> JNull | Some s \<Rightarrow> JStr s)
     # map (\<lambda>q. (q, JObj (state_entry d q))) (sorted_list_of_set (states d))"
proof -
  let ?qs = "sorted_list_of_set (states d)"
  let ?d0 = "[(''startingState'', case start_state d of None \<Rightarrow> JNull | Some s \<Rightarrow> JStr s)]"
  have "distinct (map (\<lambda>q. q) ?qs)" by simp
  moreover have "\<forall>q \<in> set ?qs. q \<notin> fst ` set ?d0" using assms by auto
  ultimately have "foldl (\<lambda>acc q. dict_set acc q (JObj (state_entry d q))) ?d0 ?qs
      = ?d0 @ map (\<lambda>q. (q, JObj (state_entry d q))) ?qs"
    by (rule foldl_dict_set_fresh)
  then show ?thesis by (simp add: to_json_def)
qed

text \<open>
  C8, as the code has it. Take a DFA with finitely many states in which no state is named
  \<open>startingState\<close>, no declared state has a transition on the symbol \<open>isTerminatingState\<close>
  and every transition leaves a declared state (a member of \<open>states\<close>). Then deserializing
  its \<open>to_json\<close> document succeeds and gives an NFA with the same start state and the same
  declared states, in which a declared state is final iff it is final in the DFA, and
  whose transition on \<open>(q, c)\<close> is the singleton list of the DFA's target, or absent where
  the DFA has none. The final states of the result are the declared final states of the
  DFA: \<open>to_json\<close> writes the members of \<open>states\<close> only, so a name that is in
  \<open>final_states\<close> and not in \<open>states\<close> is not final afterwards; where every final state is
  declared the two sets of final states are equal.
\<close>

theorem json_round_trip:
  assumes "finite (states d)" "''startingState'' \<notin> states d"
    and "\<forall>q \<in> states d. \<forall>c t. target_of d q c = Some t \<longrightarrow> c \<noteq> ''isTerminatingState''"
    and "\<forall>q c t. target_of d q c = Some t \<longrightarrow> q \<in> states d"
  shows "\<exists>n. deserialize_nfa_json (Some (to_json d)) = Inr n
      \<and> start_state n = start_state d
      \<and> states n = states d
      \<and> final_states n = final_states d \<inter> states d
      \<and> (\<forall>q \<in> states d. q \<in> final_states n \<longleftrightarrow> q \<in> final_states d)
      \<and> (final_states d \<subseteq> states d \<longrightarrow> final_states n = final_states d)
      \<and> (\<forall>q c. targets_of n q c = map_option (\<lambda>t. [t]) (target_of d q c))"
proof -
  let ?qs = "sorted_list_of_set (states d)"
  let ?sv = "case start_state d of None \<Rightarrow> JNull | Some s \<Rightarrow> JStr s"
  let ?body = "map (\<lambda>q. (q, JObj (state_entry d q))) ?qs"
  have doc: "to_json d = (''startingState'', ?sv) # ?body" by (rule to_json_unfold [OF assms(1,2)])
  have qs: "set ?qs = states d" "distinct ?qs" using assms(1) by simp_all
  have keys: "map fst ((''startingState'', ?sv) # ?body) = ''startingState'' # ?qs"
    by (simp add: comp_def)
  have "distinct (map fst ((''startingState'', ?sv) # ?body))"
    unfolding keys using qs assms(2) by simp
  then have it: "items (to_json d) = (''startingState'', ?sv) # ?body"
    unfolding doc by (rule items_distinct_id)
  have lookup: "map_of (to_json d) ''startingState'' = Some ?sv" unfolding doc by simp
  have des: "deserialize_nfa_json (Some (to_json d)) = parse_states ?body (NFA (start_state d))"
    by (simp add: deserialize_nfa_json_def lookup it split: option.splits)
  have fresh: "\<forall>q \<in> set ?qs. \<forall>c. targets_of (NFA (start_state d)) q c = None"
    by (simp add: targets_of_def NFA_def)
  from assms(2,3) qs have a: "''startingState'' \<notin> set ?qs"
    "\<forall>q \<in> set ?qs. \<forall>c t. target_of d q c = Some t \<longrightarrow> c \<noteq> ''isTerminatingState''"
    by simp_all
  from parse_dfa_states [OF qs(2) a fresh] obtain n where
    n: "parse_states ?body (NFA (start_state d)) = Inr n"
      "states n = states (NFA (start_state d)) \<union> set ?qs"
      "final_states n = final_states (NFA (start_state d)) \<union> {q \<in> set ?qs. q \<in> final_states d}"
      "start_state n = start_state (NFA (start_state d))"
      "\<forall>p c. targets_of n p c =
          (if p \<in> set ?qs then map_option (\<lambda>t. [t]) (target_of d p c)
           else targets_of (NFA (start_state d)) p c)"
    by blast
  have tg: "\<forall>q c. targets_of n q c = map_option (\<lambda>t. [t]) (target_of d q c)"
  proof (intro allI)
    fix q c
    show "targets_of n q c = map_option (\<lambda>t. [t]) (target_of d q c)"
    proof (cases "q \<in> states d")
      case True
      with n(5) qs(1) show ?thesis by simp
    next
      case False
      with assms(4) have "target_of d q c = None" by (metis not_Some_eq)
      with False n(5) qs(1) show ?thesis by (simp add: targets_of_def NFA_def)
    qed
  qed
  have "states n = states d" using n(2) qs(1) by (simp add: NFA_def)
  moreover have fin: "final_states n = final_states d \<inter> states d"
    using n(3) qs(1) by (auto simp: NFA_def)
  moreover have "\<forall>q \<in> states d. q \<in> final_states n \<longleftrightarrow> q \<in> final_states d"
    unfolding fin by blast
  moreover have "final_states d \<subseteq> states d \<longrightarrow> final_states n = final_states d"
    unfolding fin by blast
  moreover have "start_state n = start_state d" using n(4) by (simp add: NFA_def)
  ultimately show ?thesis using des n(1) tg by simp
qed

text \<open>
  C8 as stated fails: a DFA with the single, non-final state \<open>A\<close> and the transition
  \<open>A --isTerminatingState--> A\<close>. \<open>to_json\<close> overwrites the finality flag of \<open>A\<close> with the
  target, and the deserializer reads the non-empty string as true and skips the key:
  \<open>A\<close> comes back final and without its transition.
\<close>

definition flag_dfa :: dfa where
  "flag_dfa = \<lparr>start_state = Some ''A'', states = {''A''}, final_states = {},
     transitions = [(''A'', [(''isTerminatingState'', ''A'')])]\<rparr>"

theorem json_round_trip_counterexample:
  "to_json flag_dfa = [(''startingState'', JStr ''A''), (''A'', JObj [(''isTerminatingState'', FStr ''A'')])]
   \<and> deserialize_nfa_json (Some (to_json flag_dfa)) =
       Inr \<lparr>start_state = Some ''A'', states = {''A''}, final_states = {''A''},
            transitions = [(''A'', [])]\<rparr>
   \<and> ''A'' \<notin> final_states flag_dfa
   \<and> target_of flag_dfa ''A'' ''isTerminatingState'' = Some ''A''"
  by code_simp

lemma scenario_round_trip_hyps:
  "\<forall>q \<in> states scenario_dfa. \<forall>c t. target_of scenario_dfa q c = Some t \<longrightarrow> c \<noteq> ''isTerminatingState''"
  "\<forall>q c t. target_of scenario_dfa q c = Some t \<longrightarrow> q \<in> states scenario_dfa"
  by (auto simp: scenario_dfa_def target_of_def split: if_splits)

theorem json_round_trip_witness:
  "finite (states scenario_dfa) \<and> ''startingState'' \<notin> states scenario_dfa
   \<and> (\<exists>n. deserialize_nfa_json (Some (to_json scenario_dfa)) = Inr n
         \<and> start_state n = Some ''S0'' \<and> states n = {''S0'', ''S1'', ''S2''}
         \<and> final_states n = {''S2''}
         \<and> targets_of n ''S1'' ''b'' = Some [''S2''])"
proof -
  have h: "finite (states scenario_dfa)" "''startingState'' \<notin> states scenario_dfa"
    by (simp_all add: scenario_dfa_def)
  from json_round_trip [OF h scenario_round_trip_hyps] obtain n where
    n: "deserialize_nfa_json (Some (to_json scenario_dfa)) = Inr n"
      "start_state n = start_state scenario_dfa" "states n = states scenario_dfa"
      "final_states n = final_states scenario_dfa \<inter> states scenario_dfa"
      "\<forall>q c. targets_of n q c = map_option (\<lambda>t. [t]) (target_of scenario_dfa q c)"
    by blast
  have "target_of scenario_dfa ''S1'' ''b'' = Some ''S2''"
    by (simp add: scenario_dfa_def target_of_def)
  with n(5) have t: "targets_of n ''S1'' ''b'' = Some [''S2'']" by simp
  from n(2,3,4) have "start_state n = Some ''S0''" "states n = {''S0'', ''S1'', ''S2''}"
    "final_states n = {''S2''}"
    by (simp_all add: scenario_dfa_def)
  with n(1) h t show ?thesis by blast
qed

section \<open>Subset construction\<close>

text \<open>
  \<open>move\<close>: the loop over \<open>states_set\<close> only inserts targets into the result set, so the
  result is the union below in whatever order the set is enumerated.
\<close>

definition move :: "nfa \<Rightarrow> string set \<Rightarrow> string \<Rightarrow> string set" where
  "move nfa states_set symbol =
     (\<Union>state \<in> states_set.
        case map_of (transitions nfa) state of
          None \<Rightarrow> {}
        | Some row \<Rightarrow> (case map_of row symbol of None \<Rightarrow> {} | Some targets \<Rightarrow> set targets))"

text \<open>
  Step 1 of \<open>convert_nfa_to_dfa\<close>: the symbols of the table that pass the test written
  there, which spells the four epsilon forms out again.
\<close>

definition nfa_alphabet :: "nfa \<Rightarrow> string set" where
  "nfa_alphabet nfa =
     (\<Union>(src, trans) \<in> set (items (transitions nfa)).
        {symbol \<in> set (keys trans).
           symbol \<noteq> '''' \<and> lower symbol \<noteq> ''epsilon''
           \<and> symbol \<noteq> [CHR 0xC3, CHR 0x8E, CHR 0xC2, CHR 0xB5] \<and> symbol \<noteq> [CHR 0xCE, CHR 0xB5]})"

text \<open>
  The body of \<open>for char in sorted(list(alphabet))\<close> for the subset \<open>current_set\<close>, threaded
  over \<open>states_map\<close>, \<open>dfa_state_counter\<close>, \<open>worklist\<close> and the DFA under construction.
\<close>

type_synonym builder = "(string set \<rightharpoonup> string) \<times> nat \<times> string set list \<times> dfa"

fun expand :: "order \<Rightarrow> nfa \<Rightarrow> string set \<Rightarrow> string \<Rightarrow> string list \<Rightarrow> builder \<Rightarrow> builder" where
  "expand ord nfa current_set current_name [] b = b"
| "expand ord nfa current_set current_name (char # chars) (states_map, counter, worklist, dfa) =
     (let move_result = move nfa current_set char;
          final_destination_set = get_epsilon_closure ord nfa move_result
      in if final_destination_set = {}
         then expand ord nfa current_set current_name chars (states_map, counter, worklist, dfa)
         else (case states_map final_destination_set of
                 None \<Rightarrow>
                   (let new_name = state_name_of counter;
                        is_final = (\<exists>s \<in> final_destination_set. s \<in> final_states nfa)
                    in expand ord nfa current_set current_name chars
                         (states_map(final_destination_set \<mapsto> new_name), Suc counter,
                          worklist @ [final_destination_set],
                          dfa_add_transition (add_state dfa new_name is_final)
                            current_name char new_name))
               | Some name \<Rightarrow>
                   expand ord nfa current_set current_name chars
                     (states_map, counter, worklist,
                      dfa_add_transition dfa current_name char name)))"

lemma move_subset: "move nfa S c \<subseteq> nfa_targets nfa"
proof
  fix x
  assume "x \<in> move nfa S c"
  then obtain q row ts where "map_of (transitions nfa) q = Some row" "map_of row c = Some ts" "x \<in> set ts"
    by (auto simp: move_def split: option.splits)
  then have "(q, row) \<in> set (transitions nfa)" "(c, ts) \<in> set row" "x \<in> set ts"
    by (simp_all add: map_of_SomeD)
  then show "x \<in> nfa_targets nfa" unfolding nfa_targets_iff by blast
qed

lemma destination_subset: "get_epsilon_closure ord nfa (move nfa S c) \<subseteq> nfa_targets nfa"
  using get_epsilon_closure_bound [of ord nfa "move nfa S c"] move_subset [of nfa S c] by blast

lemma expand_grows:
  assumes "expand ord nfa S n chars (sm, cnt, wl, dfa) = (sm', cnt', wl', dfa')"
  shows "\<exists>new. wl' = wl @ new \<and> dom sm' = dom sm \<union> set new \<and> set new \<inter> dom sm = {}
       \<and> (\<forall>T \<in> set new. T \<subseteq> nfa_targets nfa)"
  using assms
proof (induction chars arbitrary: sm cnt wl dfa)
  case Nil
  then show ?case by simp
next
  case (Cons c chars)
  let ?dest = "get_epsilon_closure ord nfa (move nfa S c)"
  show ?case
  proof (cases "?dest = {}")
    case True
    with Cons.prems have "expand ord nfa S n chars (sm, cnt, wl, dfa) = (sm', cnt', wl', dfa')"
      by simp
    from Cons.IH [OF this] show ?thesis .
  next
    case False
    show ?thesis
    proof (cases "sm ?dest")
      case (Some name)
      with False Cons.prems have "expand ord nfa S n chars
          (sm, cnt, wl, dfa_add_transition dfa n c name) = (sm', cnt', wl', dfa')"
        by simp
      from Cons.IH [OF this] show ?thesis .
    next
      case None
      with False Cons.prems have "expand ord nfa S n chars
          (sm(?dest \<mapsto> state_name_of cnt), Suc cnt, wl @ [?dest],
           dfa_add_transition (add_state dfa (state_name_of cnt) (\<exists>s \<in> ?dest. s \<in> final_states nfa))
             n c (state_name_of cnt)) = (sm', cnt', wl', dfa')"
        by (simp add: Let_def)
      from Cons.IH [OF this] obtain new where
        new: "wl' = (wl @ [?dest]) @ new" "dom sm' = dom (sm(?dest \<mapsto> state_name_of cnt)) \<union> set new"
          "set new \<inter> dom (sm(?dest \<mapsto> state_name_of cnt)) = {}"
          "\<forall>T \<in> set new. T \<subseteq> nfa_targets nfa"
        by blast
      have d: "?dest \<notin> dom sm" using None by (simp add: domIff)
      have "wl' = wl @ (?dest # new)" using new(1) by simp
      moreover have "dom sm' = dom sm \<union> set (?dest # new)" using new(2) by auto
      moreover have "set (?dest # new) \<inter> dom sm = {}" using new(3) d by auto
      moreover have "\<forall>T \<in> set (?dest # new). T \<subseteq> nfa_targets nfa"
        using new(4) destination_subset [of ord nfa S c] by simp
      ultimately show ?thesis by blast
    qed
  qed
qed

text \<open>
  The main loop. \<open>states_map[current_set]\<close> raises \<open>KeyError\<close> for a subset without a name.
\<close>

type_synonym loop_state =
  "(string set \<rightharpoonup> string) \<times> nat \<times> string set list \<times> string set set \<times> dfa"

function subset_loop :: "order \<Rightarrow> nfa \<Rightarrow> string list \<Rightarrow> loop_state \<Rightarrow> error + dfa" where
  "subset_loop ord nfa alphabet (states_map, counter, [], processed_sets, dfa) = Inr dfa"
| "subset_loop ord nfa alphabet (states_map, counter, current_set # worklist, processed_sets, dfa) =
     (case states_map current_set of
        None \<Rightarrow> Inl KeyError
      | Some current_name \<Rightarrow>
          if current_set \<in> processed_sets
          then subset_loop ord nfa alphabet (states_map, counter, worklist, processed_sets, dfa)
          else (case expand ord nfa current_set current_name alphabet
                       (states_map, counter, worklist, dfa) of
                  (states_map', counter', worklist', dfa') \<Rightarrow>
                    subset_loop ord nfa alphabet
                      (states_map', counter', worklist', insert current_set processed_sets, dfa')))"
  by pat_completeness auto

definition unnamed :: "nfa \<Rightarrow> (string set \<rightharpoonup> string) \<Rightarrow> nat" where
  "unnamed nfa states_map = card (Pow (nfa_targets nfa) - dom states_map)"

lemma expand_decreases:
  assumes "(sm', cnt', wl', dfa') = expand ord nfa S n chars (sm, cnt, wl, dfa)"
  shows "unnamed nfa sm' < unnamed nfa sm
       \<or> (unnamed nfa sm' = unnamed nfa sm \<and> length wl' = length wl)"
proof -
  from assms have "expand ord nfa S n chars (sm, cnt, wl, dfa) = (sm', cnt', wl', dfa')"
    by simp
  from expand_grows [OF this] obtain new where
    new: "wl' = wl @ new" "dom sm' = dom sm \<union> set new"
      "set new \<inter> dom sm = {}" "\<forall>T \<in> set new. T \<subseteq> nfa_targets nfa"
    by blast
  show ?thesis
  proof (cases "new = []")
    case True
    with new show ?thesis by (simp add: unnamed_def)
  next
    case False
    then obtain T where T: "T \<in> set new" by (cases new) auto
    with new have "T \<in> Pow (nfa_targets nfa) - dom sm" "T \<in> dom sm'" by auto
    then have "Pow (nfa_targets nfa) - dom sm' \<subset> Pow (nfa_targets nfa) - dom sm"
      using new(2) by blast
    moreover have "finite (Pow (nfa_targets nfa) - dom sm)"
      by (simp add: finite_nfa_targets)
    ultimately show ?thesis unfolding unnamed_def by (simp add: psubset_card_mono)
  qed
qed

termination subset_loop
  apply (relation "inv_image (less_than <*lex*> less_than)
    (\<lambda>(ord, nfa, alphabet, states_map, counter, worklist, processed_sets, dfa).
       (unnamed nfa states_map, length worklist))")
  subgoal by (intro wf_inv_image wf_lex_prod wf_less_than)
  subgoal by simp
  subgoal by (clarsimp dest!: expand_decreases)
  done

declare subset_loop.simps [simp del]

text \<open>
  \<open>convert_nfa_to_dfa\<close>. The start state of an NFA is a string or \<open>None\<close>; \<open>None\<close> is a
  key of no row and a member of no set of states, so the source's \<open>{None}\<close> behaves as
  the empty set of states does here: \<open>S0\<close> is not final and has no transition.
\<close>

definition convert_nfa_to_dfa :: "order \<Rightarrow> nfa \<Rightarrow> error + dfa" where
  "convert_nfa_to_dfa ord nfa =
     (let alphabet = nfa_alphabet nfa;
          start_closure = get_epsilon_closure ord nfa (set_option (start_state nfa));
          is_start_final = (\<exists>s \<in> start_closure. s \<in> final_states nfa);
          dfa = add_state (DFA\<lparr>start_state := Some ''S0''\<rparr>) ''S0'' is_start_final
      in subset_loop ord nfa (sorted_list_of_set alphabet)
           ([start_closure \<mapsto> ''S0''], 1, [start_closure], {}, dfa))"

definition scenario_nfa :: nfa where
  "scenario_nfa =
     \<lparr>start_state = Some ''S0'', states = {''S0'', ''S1'', ''S2''}, final_states = {''S2''},
      transitions = [(''S0'', [(''a'', [''S0'', ''S1''])]), (''S1'', [(''b'', [''S2''])]), (''S2'', [])]\<rparr>"

section \<open>Correctness of the subset construction\<close>

text \<open>
  Acceptance by an NFA, by paths: an edge whose label passes the epsilon test is taken
  without reading input, an edge with any other label reads that label.
\<close>

definition nfa_edge :: "nfa \<Rightarrow> string \<Rightarrow> string \<Rightarrow> string \<Rightarrow> bool" where
  "nfa_edge nfa q symbol q' \<longleftrightarrow>
     (\<exists>row targets. map_of (transitions nfa) q = Some row \<and> map_of row symbol = Some targets
        \<and> q' \<in> set targets)"

inductive nfa_reaches :: "nfa \<Rightarrow> string \<Rightarrow> string list \<Rightarrow> string \<Rightarrow> bool" for nfa :: nfa where
  here: "nfa_reaches nfa q [] q"
| silent: "nfa_edge nfa q e q' \<Longrightarrow> is_epsilon_label e \<Longrightarrow> nfa_reaches nfa q' w r
     \<Longrightarrow> nfa_reaches nfa q w r"
| read: "nfa_edge nfa q c q' \<Longrightarrow> \<not> is_epsilon_label c \<Longrightarrow> nfa_reaches nfa q' w r
     \<Longrightarrow> nfa_reaches nfa q (c # w) r"

definition nfa_accepts_from :: "nfa \<Rightarrow> string set \<Rightarrow> string list \<Rightarrow> bool" where
  "nfa_accepts_from nfa S w \<longleftrightarrow> (\<exists>q \<in> S. \<exists>r. nfa_reaches nfa q w r \<and> r \<in> final_states nfa)"

definition nfa_accepts :: "nfa \<Rightarrow> string list \<Rightarrow> bool" where
  "nfa_accepts nfa w \<longleftrightarrow> nfa_accepts_from nfa (set_option (start_state nfa)) w"

definition silent_edge :: "nfa \<Rightarrow> string \<Rightarrow> string \<Rightarrow> bool" where
  "silent_edge nfa q q' \<longleftrightarrow> (\<exists>e. is_epsilon_label e \<and> nfa_edge nfa q e q')"

definition subset_step :: "order \<Rightarrow> nfa \<Rightarrow> string set \<Rightarrow> string \<Rightarrow> string set" where
  "subset_step ord nfa S c = get_epsilon_closure ord nfa (move nfa S c)"

lemma move_iff: "q' \<in> move nfa S c \<longleftrightarrow> (\<exists>q \<in> S. nfa_edge nfa q c q')"
proof -
  have "q' \<in> (case map_of (transitions nfa) q of
                None \<Rightarrow> {}
              | Some row \<Rightarrow> (case map_of row c of None \<Rightarrow> {} | Some targets \<Rightarrow> set targets))
      \<longleftrightarrow> nfa_edge nfa q c q'" for q
  proof (cases "map_of (transitions nfa) q")
    case None
    then show ?thesis by (simp add: nfa_edge_def)
  next
    case (Some row)
    then show ?thesis by (cases "map_of row c") (simp_all add: nfa_edge_def)
  qed
  then show ?thesis unfolding move_def by simp
qed

lemma in_epsilon_targets:
  "x \<in> epsilon_targets row \<longleftrightarrow> (\<exists>e ts. (e, ts) \<in> set row \<and> is_epsilon_label e \<and> x \<in> set ts)"
proof
  assume "x \<in> epsilon_targets row"
  then obtain p where p: "p \<in> set row"
    "x \<in> (case p of (symbol, targets) \<Rightarrow> if is_epsilon_label symbol then set targets else {})"
    unfolding epsilon_targets_def by blast
  obtain e ts where "p = (e, ts)" by (cases p)
  with p have "(e, ts) \<in> set row" "is_epsilon_label e" "x \<in> set ts"
    by (simp_all split: if_splits)
  then show "\<exists>e ts. (e, ts) \<in> set row \<and> is_epsilon_label e \<and> x \<in> set ts" by blast
next
  assume "\<exists>e ts. (e, ts) \<in> set row \<and> is_epsilon_label e \<and> x \<in> set ts"
  then obtain e ts where *: "(e, ts) \<in> set row" "is_epsilon_label e" "x \<in> set ts" by blast
  then have "x \<in> (case (e, ts) of (symbol, targets) \<Rightarrow>
      if is_epsilon_label symbol then set targets else {})" by simp
  with *(1) show "x \<in> epsilon_targets row" unfolding epsilon_targets_def by blast
qed

lemma finite_move: "finite (move nfa S c)"
  using move_subset [of nfa S c] finite_nfa_targets [of nfa] by (rule finite_subset)

lemma epsilon_successors_iff: "q' \<in> epsilon_successors nfa q \<longleftrightarrow> silent_edge nfa q q'"
proof (cases "map_of (transitions nfa) q")
  case None
  then show ?thesis by (simp add: epsilon_successors_def silent_edge_def nfa_edge_def)
next
  case (Some row)
  have "q' \<in> epsilon_targets (items row)
      \<longleftrightarrow> (\<exists>e ts. (e, ts) \<in> set (items row) \<and> is_epsilon_label e \<and> q' \<in> set ts)"
    by (rule in_epsilon_targets)
  also have "\<dots> \<longleftrightarrow> (\<exists>e ts. map_of row e = Some ts \<and> is_epsilon_label e \<and> q' \<in> set ts)"
    by (simp only: in_items_iff)
  finally show ?thesis using Some
    by (auto simp: epsilon_successors_def silent_edge_def nfa_edge_def)
qed

lemma closed_silent_star:
  assumes "(silent_edge nfa)\<^sup>*\<^sup>* q r" "q \<in> S" "epsilon_closed nfa S"
  shows "r \<in> S"
  using assms
proof (induction rule: rtranclp_induct)
  case base
  then show ?case by simp
next
  case (step y z)
  then have "y \<in> S" by simp
  moreover have "z \<in> epsilon_successors nfa y" using step(2) by (simp add: epsilon_successors_iff)
  ultimately show ?case using step(5) unfolding epsilon_closed_def by blast
qed

lemma closure_silent_star:
  assumes "finite S"
  shows "get_epsilon_closure ord nfa S = {r. \<exists>q \<in> S. (silent_edge nfa)\<^sup>*\<^sup>* q r}"
proof
  let ?T = "{r. \<exists>q \<in> S. (silent_edge nfa)\<^sup>*\<^sup>* q r}"
  have "S \<subseteq> ?T" by blast
  moreover have "epsilon_closed nfa ?T"
    unfolding epsilon_closed_def
  proof (intro ballI subsetI)
    fix q x
    assume "q \<in> ?T" "x \<in> epsilon_successors nfa q"
    then obtain p where "p \<in> S" "(silent_edge nfa)\<^sup>*\<^sup>* p q" "silent_edge nfa q x"
      by (auto simp: epsilon_successors_iff)
    then have "(silent_edge nfa)\<^sup>*\<^sup>* p x" by (meson rtranclp.rtrancl_into_rtrancl)
    with \<open>p \<in> S\<close> show "x \<in> ?T" by blast
  qed
  ultimately show "get_epsilon_closure ord nfa S \<subseteq> ?T"
    using assms by (intro get_epsilon_closure_least)
next
  show "{r. \<exists>q \<in> S. (silent_edge nfa)\<^sup>*\<^sup>* q r} \<subseteq> get_epsilon_closure ord nfa S"
  proof
    fix r
    assume "r \<in> {r. \<exists>q \<in> S. (silent_edge nfa)\<^sup>*\<^sup>* q r}"
    then obtain q where q: "q \<in> S" "(silent_edge nfa)\<^sup>*\<^sup>* q r" by blast
    have "q \<in> get_epsilon_closure ord nfa S"
      using q(1) get_epsilon_closure_superset [of S ord nfa] by blast
    with q(2) show "r \<in> get_epsilon_closure ord nfa S"
      using get_epsilon_closure_closed [OF assms, of nfa ord] by (rule closed_silent_star)
  qed
qed

lemma reaches_silent_star:
  assumes "(silent_edge nfa)\<^sup>*\<^sup>* q q'" "nfa_reaches nfa q' w r"
  shows "nfa_reaches nfa q w r"
  using assms
proof (induction rule: converse_rtranclp_induct)
  case base
  then show ?case by simp
next
  case (step y z)
  from step(1) obtain e where "nfa_edge nfa y e z" "is_epsilon_label e"
    unfolding silent_edge_def by blast
  moreover have "nfa_reaches nfa z w r" using step.prems by (rule step.IH)
  ultimately show ?case by (rule nfa_reaches.silent)
qed

lemma reaches_Nil_star:
  assumes "nfa_reaches nfa q w r" "w = []"
  shows "(silent_edge nfa)\<^sup>*\<^sup>* q r"
  using assms
proof (induction rule: nfa_reaches.induct)
  case (here q)
  show ?case by simp
next
  case (silent q e q' w r)
  have "silent_edge nfa q q'" using silent(1,2) unfolding silent_edge_def by blast
  moreover have "(silent_edge nfa)\<^sup>*\<^sup>* q' r" using silent.prems by (rule silent.IH)
  ultimately show ?case by (rule converse_rtranclp_into_rtranclp)
next
  case (read q c q' w r)
  then show ?case by simp
qed

lemma reaches_Cons_split:
  assumes "nfa_reaches nfa q w' r" "w' = c # w"
  shows "\<exists>q1 q2. (silent_edge nfa)\<^sup>*\<^sup>* q q1 \<and> nfa_edge nfa q1 c q2 \<and> \<not> is_epsilon_label c
           \<and> nfa_reaches nfa q2 w r"
  using assms
proof (induction rule: nfa_reaches.induct)
  case (here q)
  then show ?case by simp
next
  case (silent q e q' w' r)
  from silent.IH [OF silent.prems] obtain q1 q2 where
    *: "(silent_edge nfa)\<^sup>*\<^sup>* q' q1" "nfa_edge nfa q1 c q2" "\<not> is_epsilon_label c"
       "nfa_reaches nfa q2 w r"
    by blast
  have "silent_edge nfa q q'" using silent(1,2) unfolding silent_edge_def by blast
  then have "(silent_edge nfa)\<^sup>*\<^sup>* q q1" using *(1) by (rule converse_rtranclp_into_rtranclp)
  with * show ?case by blast
next
  case (read q c' q' w' r)
  from read.prems have eq: "c' = c" "w' = w" by simp_all
  have "(silent_edge nfa)\<^sup>*\<^sup>* q q" by simp
  moreover have "nfa_edge nfa q c q'" using read.hyps(1) unfolding eq .
  moreover have "\<not> is_epsilon_label c" using read.hyps(2) unfolding eq .
  moreover have "nfa_reaches nfa q' w r" using read.hyps(3) unfolding eq .
  ultimately show ?case by blast
qed

lemma accepts_from_Nil:
  assumes "epsilon_closed nfa S"
  shows "nfa_accepts_from nfa S [] \<longleftrightarrow> (\<exists>s \<in> S. s \<in> final_states nfa)"
proof
  assume "nfa_accepts_from nfa S []"
  then obtain q r where q: "q \<in> S" "nfa_reaches nfa q [] r" "r \<in> final_states nfa"
    by (auto simp: nfa_accepts_from_def)
  from q(2) have "(silent_edge nfa)\<^sup>*\<^sup>* q r" by (rule reaches_Nil_star) simp
  then have "r \<in> S" using q(1) assms by (rule closed_silent_star)
  with q(3) show "\<exists>s \<in> S. s \<in> final_states nfa" by blast
next
  assume "\<exists>s \<in> S. s \<in> final_states nfa"
  then obtain s where "s \<in> S" "s \<in> final_states nfa" by blast
  moreover have "nfa_reaches nfa s [] s" by (rule nfa_reaches.here)
  ultimately show "nfa_accepts_from nfa S []" unfolding nfa_accepts_from_def by blast
qed

lemma accepts_from_Cons:
  assumes "epsilon_closed nfa S"
  shows "nfa_accepts_from nfa S (c # w)
     \<longleftrightarrow> \<not> is_epsilon_label c \<and> nfa_accepts_from nfa (subset_step ord nfa S c) w"
proof
  assume "nfa_accepts_from nfa S (c # w)"
  then obtain q r where q: "q \<in> S" "nfa_reaches nfa q (c # w) r" "r \<in> final_states nfa"
    by (auto simp: nfa_accepts_from_def)
  from reaches_Cons_split [OF q(2) refl] obtain q1 q2 where
    *: "(silent_edge nfa)\<^sup>*\<^sup>* q q1" "nfa_edge nfa q1 c q2" "\<not> is_epsilon_label c"
       "nfa_reaches nfa q2 w r"
    by blast
  have "q1 \<in> S" using *(1) q(1) assms by (rule closed_silent_star)
  with *(2) have "q2 \<in> move nfa S c" unfolding move_iff by blast
  then have "q2 \<in> subset_step ord nfa S c"
    unfolding subset_step_def using get_epsilon_closure_superset [of "move nfa S c" ord nfa] by blast
  with *(3,4) q(3) show "\<not> is_epsilon_label c \<and> nfa_accepts_from nfa (subset_step ord nfa S c) w"
    unfolding nfa_accepts_from_def by blast
next
  assume a: "\<not> is_epsilon_label c \<and> nfa_accepts_from nfa (subset_step ord nfa S c) w"
  then obtain q3 r where q3: "q3 \<in> subset_step ord nfa S c" "nfa_reaches nfa q3 w r"
    "r \<in> final_states nfa"
    by (auto simp: nfa_accepts_from_def)
  from q3(1) obtain q2 where q2: "q2 \<in> move nfa S c" "(silent_edge nfa)\<^sup>*\<^sup>* q2 q3"
    unfolding subset_step_def closure_silent_star [OF finite_move] by blast
  from q2(1) obtain q1 where q1: "q1 \<in> S" "nfa_edge nfa q1 c q2" unfolding move_iff by blast
  have "nfa_reaches nfa q2 w r" using q2(2) q3(2) by (rule reaches_silent_star)
  with q1(2) a have "nfa_reaches nfa q1 (c # w) r" by (intro nfa_reaches.read) simp_all
  with q1(1) q3(3) show "nfa_accepts_from nfa S (c # w)" unfolding nfa_accepts_from_def by blast
qed

lemma nfa_alphabet_iff:
  "c \<in> nfa_alphabet nfa \<longleftrightarrow>
     \<not> is_epsilon_label c
     \<and> (\<exists>q row ts. map_of (transitions nfa) q = Some row \<and> map_of row c = Some ts)"
proof -
  have k: "c \<in> set (keys trans) \<longleftrightarrow> (\<exists>ts. map_of trans c = Some ts)"
    for trans :: "(string \<times> string list) list"
  proof -
    have "c \<in> set (keys trans) \<longleftrightarrow> (\<exists>ts. (c, ts) \<in> set (items trans))"
      unfolding keys_def by force
    then show ?thesis by (simp only: in_items_iff)
  qed
  have t: "(c \<noteq> '''' \<and> lower c \<noteq> ''epsilon''
        \<and> c \<noteq> [CHR 0xC3, CHR 0x8E, CHR 0xC2, CHR 0xB5] \<and> c \<noteq> [CHR 0xCE, CHR 0xB5])
      \<longleftrightarrow> \<not> is_epsilon_label c"
    unfolding is_epsilon_label_def by blast
  have "c \<in> nfa_alphabet nfa \<longleftrightarrow>
      (\<exists>p \<in> set (items (transitions nfa)). c \<in> set (keys (snd p)) \<and> \<not> is_epsilon_label c)"
    unfolding nfa_alphabet_def t [symmetric] by (simp add: split_beta)
  also have "\<dots> \<longleftrightarrow>
      (\<exists>q row. (q, row) \<in> set (items (transitions nfa)) \<and> c \<in> set (keys row) \<and> \<not> is_epsilon_label c)"
    by force
  also have "\<dots> \<longleftrightarrow> (\<exists>q row. map_of (transitions nfa) q = Some row
      \<and> (\<exists>ts. map_of row c = Some ts) \<and> \<not> is_epsilon_label c)"
    by (simp only: in_items_iff k)
  finally show ?thesis by blast
qed

lemma finite_nfa_alphabet: "finite (nfa_alphabet nfa)"
  by (simp add: nfa_alphabet_def split_beta)

lemma move_outside_alphabet:
  assumes "\<not> is_epsilon_label c" "c \<notin> nfa_alphabet nfa"
  shows "move nfa S c = {}"
proof -
  have "\<not> nfa_edge nfa q c q'" for q q'
    using assms unfolding nfa_alphabet_iff nfa_edge_def by blast
  then show ?thesis using move_iff [of _ nfa S c] by blast
qed

lemma closure_empty: "get_epsilon_closure ord nfa {} = {}"
  using get_epsilon_closure_bound [of ord nfa "{}"] closure_silent_star [of "{}" ord nfa] by simp

text \<open>
  Invariants of the construction. \<open>names_ok\<close>: the names are \<open>S0 .. S(counter - 1)\<close>, one per
  subset; the final DFA states are the names of the subsets that hold a final NFA state;
  a state without a subset has no transition; every named subset is closed.
  \<open>table_ok\<close>: \<open>D S\<close> being the symbols already handled for the subset \<open>S\<close>, the row of its
  name holds exactly the non-empty destinations on those symbols.
\<close>

definition names_ok :: "nfa \<Rightarrow> (string set \<rightharpoonup> string) \<Rightarrow> nat \<Rightarrow> dfa \<Rightarrow> bool" where
  "names_ok nfa sm cnt dfa \<longleftrightarrow>
     (\<forall>S n. sm S = Some n \<longrightarrow> (\<exists>i < cnt. n = state_name_of i))
     \<and> (\<forall>S T n. sm S = Some n \<longrightarrow> sm T = Some n \<longrightarrow> S = T)
     \<and> final_states dfa = {n. \<exists>S. sm S = Some n \<and> (\<exists>s \<in> S. s \<in> final_states nfa)}
     \<and> (\<forall>q c. q \<notin> ran sm \<longrightarrow> target_of dfa q c = None)
     \<and> (\<forall>S n. sm S = Some n \<longrightarrow> epsilon_closed nfa S)"

definition table_ok ::
  "order \<Rightarrow> nfa \<Rightarrow> (string set \<rightharpoonup> string) \<Rightarrow> dfa \<Rightarrow> (string set \<Rightarrow> string set) \<Rightarrow> bool" where
  "table_ok ord nfa sm dfa D \<longleftrightarrow>
     (\<forall>S n c. sm S = Some n \<longrightarrow>
        target_of dfa n c =
          (if c \<in> D S \<and> subset_step ord nfa S c \<noteq> {} then sm (subset_step ord nfa S c) else None))
     \<and> (\<forall>S n c. sm S = Some n \<longrightarrow> c \<in> D S \<longrightarrow> subset_step ord nfa S c \<noteq> {}
          \<longrightarrow> sm (subset_step ord nfa S c) \<noteq> None)
     \<and> (\<forall>S. sm S = None \<longrightarrow> D S = {})"

lemma subset_step_closed: "epsilon_closed nfa (subset_step ord nfa S c)"
  unfolding subset_step_def using finite_move by (rule get_epsilon_closure_closed)

lemma step_empty:
  assumes t: "table_ok ord nfa sm dfa D" and S: "sm S = Some n"
    and e: "subset_step ord nfa S c = {}"
  shows "table_ok ord nfa sm dfa (D(S := insert c (D S)))"
proof -
  let ?D = "D(S := insert c (D S))"
  from t have t1: "\<And>T m c'. sm T = Some m \<Longrightarrow> target_of dfa m c' =
      (if c' \<in> D T \<and> subset_step ord nfa T c' \<noteq> {} then sm (subset_step ord nfa T c') else None)"
    and t2: "\<And>T m c'. sm T = Some m \<Longrightarrow> c' \<in> D T \<Longrightarrow> subset_step ord nfa T c' \<noteq> {}
      \<Longrightarrow> sm (subset_step ord nfa T c') \<noteq> None"
    and t3: "\<And>T. sm T = None \<Longrightarrow> D T = {}"
    unfolding table_ok_def by blast+
  have m: "(c' \<in> ?D T \<and> subset_step ord nfa T c' \<noteq> {})
      = (c' \<in> D T \<and> subset_step ord nfa T c' \<noteq> {})" for T c'
    using e by auto
  have "target_of dfa m c' =
      (if c' \<in> ?D T \<and> subset_step ord nfa T c' \<noteq> {} then sm (subset_step ord nfa T c') else None)"
    if "sm T = Some m" for T m c'
    unfolding m using that by (rule t1)
  moreover have "sm (subset_step ord nfa T c') \<noteq> None"
    if "sm T = Some m" "c' \<in> ?D T" "subset_step ord nfa T c' \<noteq> {}" for T m c'
  proof -
    from that(2,3) have "c' \<in> D T" using m [of c' T] by blast
    with that(1) show ?thesis using that(3) by (rule t2)
  qed
  moreover have "?D T = {}" if "sm T = None" for T
  proof -
    from that S have "T \<noteq> S" by auto
    then show ?thesis using t3 [OF that] by simp
  qed
  ultimately show ?thesis unfolding table_ok_def by blast
qed

lemma step_known:
  assumes nm: "names_ok nfa sm cnt dfa" and t: "table_ok ord nfa sm dfa D" and S: "sm S = Some n"
    and k: "sm (subset_step ord nfa S c) = Some name"
    and ne: "subset_step ord nfa S c \<noteq> {}"
  shows "names_ok nfa sm cnt (dfa_add_transition dfa n c name)
       \<and> table_ok ord nfa sm (dfa_add_transition dfa n c name) (D(S := insert c (D S)))"
proof -
  let ?D = "D(S := insert c (D S))"
  let ?dfa = "dfa_add_transition dfa n c name"
  from t have t1: "\<And>T m c'. sm T = Some m \<Longrightarrow> target_of dfa m c' =
      (if c' \<in> D T \<and> subset_step ord nfa T c' \<noteq> {} then sm (subset_step ord nfa T c') else None)"
    and t2: "\<And>T m c'. sm T = Some m \<Longrightarrow> c' \<in> D T \<Longrightarrow> subset_step ord nfa T c' \<noteq> {}
      \<Longrightarrow> sm (subset_step ord nfa T c') \<noteq> None"
    and t3: "\<And>T. sm T = None \<Longrightarrow> D T = {}"
    unfolding table_ok_def by blast+
  from nm have n1: "\<And>T m. sm T = Some m \<Longrightarrow> \<exists>i < cnt. m = state_name_of i"
    and n2: "\<And>T U m. sm T = Some m \<Longrightarrow> sm U = Some m \<Longrightarrow> T = U"
    and n3: "final_states dfa = {n. \<exists>S. sm S = Some n \<and> (\<exists>s \<in> S. s \<in> final_states nfa)}"
    and n4: "\<And>q c'. q \<notin> ran sm \<Longrightarrow> target_of dfa q c' = None"
    and n5: "\<And>T m. sm T = Some m \<Longrightarrow> epsilon_closed nfa T"
    unfolding names_ok_def by blast+
  have tg: "target_of ?dfa q c' = (if q = n \<and> c' = c then Some name else target_of dfa q c')"
    for q c'
    by (rule target_of_dfa_add_transition)
  have nran: "n \<in> ran sm" using S by (rule ranI)
  have "target_of ?dfa q c' = None" if "q \<notin> ran sm" for q c'
  proof -
    from that nran have "q \<noteq> n" by blast
    then show ?thesis using n4 [OF that] by (simp add: tg)
  qed
  then have names: "names_ok nfa sm cnt ?dfa"
    unfolding names_ok_def using n1 n2 n3 n5 by (simp; blast)
  have "target_of ?dfa m c' =
      (if c' \<in> ?D T \<and> subset_step ord nfa T c' \<noteq> {} then sm (subset_step ord nfa T c') else None)"
    if T: "sm T = Some m" for T m c'
  proof (cases "m = n \<and> c' = c")
    case True
    then have "T = S" using n2 [OF T] S by blast
    with True show ?thesis using k ne by (simp add: tg)
  next
    case False
    have dd: "(c' \<in> ?D T) = (c' \<in> D T)"
    proof (cases "T = S")
      case True
      with T S have "m = n" by simp
      with False have "c' \<noteq> c" by blast
      with True show ?thesis by simp
    next
      case False
      then show ?thesis by simp
    qed
    have tgt: "target_of ?dfa m c' = target_of dfa m c'"
      unfolding tg using False by (rule if_not_P)
    show ?thesis unfolding tgt dd by (rule t1 [OF T])
  qed
  moreover have "sm (subset_step ord nfa T c') \<noteq> None"
    if T: "sm T = Some m" and c': "c' \<in> ?D T" and st: "subset_step ord nfa T c' \<noteq> {}" for T m c'
  proof (cases "T = S \<and> c' = c")
    case True
    then show ?thesis using k by simp
  next
    case False
    with c' have "c' \<in> D T" by (auto split: if_splits)
    with T show ?thesis using st by (rule t2)
  qed
  moreover have "?D T = {}" if "sm T = None" for T
  proof -
    from that S have "T \<noteq> S" by auto
    then show ?thesis using t3 [OF that] by simp
  qed
  ultimately have "table_ok ord nfa sm ?dfa ?D" unfolding table_ok_def by blast
  with names show ?thesis by blast
qed

lemma step_new:
  assumes nm: "names_ok nfa sm cnt dfa" and t: "table_ok ord nfa sm dfa D" and S: "sm S = Some n"
    and k: "sm (subset_step ord nfa S c) = None"
    and ne: "subset_step ord nfa S c \<noteq> {}"
  shows "names_ok nfa (sm(subset_step ord nfa S c \<mapsto> state_name_of cnt)) (Suc cnt)
           (dfa_add_transition
              (add_state dfa (state_name_of cnt)
                 (\<exists>s \<in> subset_step ord nfa S c. s \<in> final_states nfa))
              n c (state_name_of cnt))
       \<and> table_ok ord nfa (sm(subset_step ord nfa S c \<mapsto> state_name_of cnt))
           (dfa_add_transition
              (add_state dfa (state_name_of cnt)
                 (\<exists>s \<in> subset_step ord nfa S c. s \<in> final_states nfa))
              n c (state_name_of cnt))
           (D(S := insert c (D S)))"
proof -
  define dest where "dest = subset_step ord nfa S c"
  define new where "new = state_name_of cnt"
  define fin where "fin \<longleftrightarrow> (\<exists>s \<in> dest. s \<in> final_states nfa)"
  define sm1 where "sm1 = sm(dest \<mapsto> new)"
  define dfa1 where "dfa1 = dfa_add_transition (add_state dfa new fin) n c new"
  define D1 where "D1 = D(S := insert c (D S))"
  from t have t1: "\<And>T m c'. sm T = Some m \<Longrightarrow> target_of dfa m c' =
      (if c' \<in> D T \<and> subset_step ord nfa T c' \<noteq> {} then sm (subset_step ord nfa T c') else None)"
    and t2: "\<And>T m c'. sm T = Some m \<Longrightarrow> c' \<in> D T \<Longrightarrow> subset_step ord nfa T c' \<noteq> {}
      \<Longrightarrow> sm (subset_step ord nfa T c') \<noteq> None"
    and t3: "\<And>T. sm T = None \<Longrightarrow> D T = {}"
    unfolding table_ok_def by blast+
  from nm have n1: "\<And>T m. sm T = Some m \<Longrightarrow> \<exists>i < cnt. m = state_name_of i"
    and n2: "\<And>T U m. sm T = Some m \<Longrightarrow> sm U = Some m \<Longrightarrow> T = U"
    and n3: "final_states dfa = {n. \<exists>S. sm S = Some n \<and> (\<exists>s \<in> S. s \<in> final_states nfa)}"
    and n4: "\<And>q c'. q \<notin> ran sm \<Longrightarrow> target_of dfa q c' = None"
    and n5: "\<And>T m. sm T = Some m \<Longrightarrow> epsilon_closed nfa T"
    unfolding names_ok_def by blast+
  have kd: "sm dest = None" using k by (simp add: dest_def)
  have dS: "dest \<noteq> S" using kd S by auto
  have fresh: "sm T \<noteq> Some new" for T
  proof
    assume "sm T = Some new"
    from n1 [OF this] obtain i where "i < cnt" "new = state_name_of i" by blast
    then show False by (simp add: new_def)
  qed
  have new_n: "new \<noteq> n" using fresh [of S] S by auto
  have sm1_dest: "sm1 dest = Some new" by (simp add: sm1_def)
  have sm1_other: "sm1 T = sm T" if "T \<noteq> dest" for T using that by (simp add: sm1_def)
  have sm1_cases: "(T = dest \<and> m = new) \<or> (T \<noteq> dest \<and> sm T = Some m)" if "sm1 T = Some m" for T m
    using that by (cases "T = dest") (simp_all add: sm1_def)
  have tg: "target_of dfa1 q c' = (if q = n \<and> c' = c then Some new else target_of dfa q c')"
    for q c'
    by (simp add: dfa1_def target_of_dfa_add_transition)
  have D1_S: "D1 S = insert c (D S)" by (simp add: D1_def)
  have D1_other: "D1 T = D T" if "T \<noteq> S" for T using that by (simp add: D1_def)
  have D1_dest: "D1 dest = {}" using D1_other [OF dS] t3 [OF kd] by simp
  have N1: "\<exists>i < Suc cnt. m = state_name_of i" if "sm1 T = Some m" for T m
  proof -
    from sm1_cases [OF that] show ?thesis
    proof
      assume "T = dest \<and> m = new"
      then show ?thesis by (auto simp: new_def)
    next
      assume "T \<noteq> dest \<and> sm T = Some m"
      then obtain i where "i < cnt" "m = state_name_of i" using n1 by blast
      then have "i < Suc cnt \<and> m = state_name_of i" by simp
      then show ?thesis by blast
    qed
  qed
  have N2: "T = U" if a: "sm1 T = Some m" and b: "sm1 U = Some m" for T U m
  proof -
    from sm1_cases [OF a] sm1_cases [OF b] fresh n2 show ?thesis by metis
  qed
  have N3: "final_states dfa1 = {n. \<exists>S. sm1 S = Some n \<and> (\<exists>s \<in> S. s \<in> final_states nfa)}"
  proof (intro set_eqI iffI)
    fix x
    assume "x \<in> final_states dfa1"
    then have "(fin \<and> x = new) \<or> x \<in> final_states dfa"
      by (auto simp: dfa1_def split: if_splits)
    then show "x \<in> {n. \<exists>S. sm1 S = Some n \<and> (\<exists>s \<in> S. s \<in> final_states nfa)}"
    proof
      assume "fin \<and> x = new"
      then have "sm1 dest = Some x" "\<exists>s \<in> dest. s \<in> final_states nfa"
        using sm1_dest by (simp_all add: fin_def)
      then show ?thesis by blast
    next
      assume "x \<in> final_states dfa"
      then obtain T where T: "sm T = Some x" "\<exists>s \<in> T. s \<in> final_states nfa"
        unfolding n3 by blast
      then have "T \<noteq> dest" using kd by auto
      then have "sm1 T = Some x" using T(1) by (simp add: sm1_other)
      with T(2) show ?thesis by blast
    qed
  next
    fix x
    assume "x \<in> {n. \<exists>S. sm1 S = Some n \<and> (\<exists>s \<in> S. s \<in> final_states nfa)}"
    then obtain T where T: "sm1 T = Some x" "\<exists>s \<in> T. s \<in> final_states nfa" by blast
    from sm1_cases [OF T(1)] show "x \<in> final_states dfa1"
    proof
      assume "T = dest \<and> x = new"
      with T(2) have "fin" "x = new" by (simp_all add: fin_def)
      then show ?thesis by (simp add: dfa1_def)
    next
      assume "T \<noteq> dest \<and> sm T = Some x"
      with T(2) have "x \<in> final_states dfa" unfolding n3 by blast
      then show ?thesis by (simp add: dfa1_def)
    qed
  qed
  have N4: "target_of dfa1 q c' = None" if "q \<notin> ran sm1" for q c'
  proof -
    have "q \<notin> ran sm"
    proof
      assume "q \<in> ran sm"
      then obtain T where T: "sm T = Some q" by (auto simp: ran_def)
      then have "T \<noteq> dest" using kd by auto
      then have "sm1 T = Some q" using T by (simp add: sm1_other)
      then have "q \<in> ran sm1" by (rule ranI)
      with that show False by simp
    qed
    moreover have "q \<noteq> n" using \<open>q \<notin> ran sm\<close> S by (auto simp: ran_def)
    ultimately show ?thesis using n4 [of q c'] by (simp add: tg)
  qed
  have N5: "epsilon_closed nfa T" if "sm1 T = Some m" for T m
  proof -
    from sm1_cases [OF that] show ?thesis
    proof
      assume "T = dest \<and> m = new"
      then show ?thesis by (simp add: dest_def subset_step_closed)
    next
      assume "T \<noteq> dest \<and> sm T = Some m"
      then show ?thesis using n5 by blast
    qed
  qed
  have names: "names_ok nfa sm1 (Suc cnt) dfa1"
    unfolding names_ok_def using N1 N2 N3 N4 N5 by blast
  have T1: "target_of dfa1 m c' =
      (if c' \<in> D1 T \<and> subset_step ord nfa T c' \<noteq> {} then sm1 (subset_step ord nfa T c') else None)"
    if T: "sm1 T = Some m" for T m c'
  proof -
    from sm1_cases [OF T] show ?thesis
    proof
      assume a: "T = dest \<and> m = new"
      have "new \<notin> ran sm" using fresh by (auto simp: ran_def)
      then have "target_of dfa new c' = None" by (rule n4)
      then have "target_of dfa1 new c' = None" using new_n by (simp add: tg)
      with a show ?thesis by (simp add: D1_dest)
    next
      assume a: "T \<noteq> dest \<and> sm T = Some m"
      then have smT: "sm T = Some m" by simp
      have known: "sm1 (subset_step ord nfa T c') = sm (subset_step ord nfa T c')"
        if "c' \<in> D T" "subset_step ord nfa T c' \<noteq> {}"
      proof -
        from t2 [OF smT that] have "subset_step ord nfa T c' \<noteq> dest" using kd by auto
        then show ?thesis by (rule sm1_other)
      qed
      show ?thesis
      proof (cases "m = n \<and> c' = c")
        case True
        then have TS: "T = S" using n2 [OF smT] S by blast
        have "target_of dfa1 m c' = Some new" using True by (simp add: tg)
        moreover have "c' \<in> D1 T" using True TS by (simp add: D1_S)
        moreover have "subset_step ord nfa T c' = dest" using True TS by (simp add: dest_def)
        moreover have "dest \<noteq> {}" using ne by (simp add: dest_def)
        ultimately show ?thesis using sm1_dest by simp
      next
        case False
        have dd: "(c' \<in> D1 T) = (c' \<in> D T)"
        proof (cases "T = S")
          case True
          with smT S have "m = n" by simp
          with False have "c' \<noteq> c" by blast
          with True show ?thesis by (simp add: D1_S)
        next
          case False
          then show ?thesis by (simp add: D1_other)
        qed
        have tgt: "target_of dfa1 m c' = target_of dfa m c'"
          unfolding tg using False by (rule if_not_P)
        show ?thesis
        proof (cases "c' \<in> D T \<and> subset_step ord nfa T c' \<noteq> {}")
          case True
          then have "sm1 (subset_step ord nfa T c') = sm (subset_step ord nfa T c')"
            by (intro known) simp_all
          with True show ?thesis unfolding tgt dd using t1 [OF smT, of c'] by simp
        next
          case False
          then show ?thesis unfolding tgt dd using t1 [OF smT, of c'] by auto
        qed
      qed
    qed
  qed
  have T2: "sm1 (subset_step ord nfa T c') \<noteq> None"
    if T: "sm1 T = Some m" and c': "c' \<in> D1 T" and st: "subset_step ord nfa T c' \<noteq> {}" for T m c'
  proof -
    from sm1_cases [OF T] show ?thesis
    proof
      assume "T = dest \<and> m = new"
      with c' show ?thesis by (simp add: D1_dest)
    next
      assume a: "T \<noteq> dest \<and> sm T = Some m"
      then have smT: "sm T = Some m" by simp
      show ?thesis
      proof (cases "T = S \<and> c' = c")
        case True
        then have "subset_step ord nfa T c' = dest" by (simp add: dest_def)
        then show ?thesis using sm1_dest by simp
      next
        case False
        with c' have "c' \<in> D T" by (cases "T = S") (auto simp: D1_S D1_other)
        from t2 [OF smT this st] have n: "sm (subset_step ord nfa T c') \<noteq> None" .
        then have "subset_step ord nfa T c' \<noteq> dest" using kd by auto
        then have "sm1 (subset_step ord nfa T c') = sm (subset_step ord nfa T c')" by (rule sm1_other)
        with n show ?thesis by simp
      qed
    qed
  qed
  have T3: "D1 T = {}" if "sm1 T = None" for T
  proof -
    from that have "T \<noteq> dest" using sm1_dest by auto
    with that have n: "sm T = None" by (simp add: sm1_other)
    then have "T \<noteq> S" using S by auto
    then show ?thesis using t3 [OF n] by (simp add: D1_other)
  qed
  have "table_ok ord nfa sm1 dfa1 D1" unfolding table_ok_def using T1 T2 T3 by blast
  with names show ?thesis
    unfolding sm1_def dfa1_def D1_def fin_def new_def dest_def by blast
qed

lemma expand_Cons:
  "expand ord nfa S n (c # chars) (sm, cnt, wl, dfa) =
     (if subset_step ord nfa S c = {} then expand ord nfa S n chars (sm, cnt, wl, dfa)
      else (case sm (subset_step ord nfa S c) of
              None \<Rightarrow>
                expand ord nfa S n chars
                  (sm(subset_step ord nfa S c \<mapsto> state_name_of cnt), Suc cnt,
                   wl @ [subset_step ord nfa S c],
                   dfa_add_transition
                     (add_state dfa (state_name_of cnt)
                        (\<exists>s \<in> subset_step ord nfa S c. s \<in> final_states nfa))
                     n c (state_name_of cnt))
            | Some name \<Rightarrow> expand ord nfa S n chars (sm, cnt, wl, dfa_add_transition dfa n c name)))"
  by (simp add: Let_def subset_step_def split: option.split)

lemma expand_inv:
  assumes "names_ok nfa sm cnt dfa" "table_ok ord nfa sm dfa D" "sm S = Some n"
    "expand ord nfa S n chars (sm, cnt, wl, dfa) = (sm', cnt', wl', dfa')"
  shows "names_ok nfa sm' cnt' dfa' \<and> table_ok ord nfa sm' dfa' (D(S := D S \<union> set chars))
       \<and> sm \<subseteq>\<^sub>m sm' \<and> start_state dfa' = start_state dfa"
  using assms
proof (induction chars arbitrary: sm cnt wl dfa D)
  case Nil
  have "D(S := D S \<union> set []) = D" by simp
  with Nil show ?case by simp
next
  case (Cons c chars)
  let ?dest = "subset_step ord nfa S c"
  let ?D = "D(S := insert c (D S))"
  have D: "?D(S := ?D S \<union> set chars) = D(S := D S \<union> set (c # chars))" by simp
  show ?case
  proof (cases "?dest = {}")
    case True
    with Cons.prems(4) have e: "expand ord nfa S n chars (sm, cnt, wl, dfa) = (sm', cnt', wl', dfa')"
      by (simp add: expand_Cons del: expand.simps)
    have "table_ok ord nfa sm dfa ?D" using Cons.prems(2,3) True by (rule step_empty)
    from Cons.IH [OF Cons.prems(1) this Cons.prems(3) e] show ?thesis unfolding D .
  next
    case False
    show ?thesis
    proof (cases "sm ?dest")
      case (Some name)
      with False Cons.prems(4) have e: "expand ord nfa S n chars
          (sm, cnt, wl, dfa_add_transition dfa n c name) = (sm', cnt', wl', dfa')"
        by (simp add: expand_Cons del: expand.simps)
      from step_known [OF Cons.prems(1,2,3) Some False]
      have "names_ok nfa sm cnt (dfa_add_transition dfa n c name)"
        "table_ok ord nfa sm (dfa_add_transition dfa n c name) ?D" by simp_all
      from Cons.IH [OF this Cons.prems(3) e] show ?thesis unfolding D by simp
    next
      case None
      let ?sm = "sm(?dest \<mapsto> state_name_of cnt)"
      let ?dfa = "dfa_add_transition (add_state dfa (state_name_of cnt)
          (\<exists>s \<in> ?dest. s \<in> final_states nfa)) n c (state_name_of cnt)"
      from None False Cons.prems(4) have e: "expand ord nfa S n chars
          (?sm, Suc cnt, wl @ [?dest], ?dfa) = (sm', cnt', wl', dfa')"
        by (simp add: expand_Cons del: expand.simps)
      from step_new [OF Cons.prems(1,2,3) None False]
      have "names_ok nfa ?sm (Suc cnt) ?dfa" "table_ok ord nfa ?sm ?dfa ?D" by simp_all
      moreover have S': "?sm S = Some n" using Cons.prems(3) None by auto
      ultimately have r: "names_ok nfa sm' cnt' dfa' \<and> table_ok ord nfa sm' dfa' (D(S := D S \<union> set (c # chars)))
          \<and> ?sm \<subseteq>\<^sub>m sm' \<and> start_state dfa' = start_state ?dfa"
        using Cons.IH [of ?sm "Suc cnt" ?dfa ?D "wl @ [?dest]"] e unfolding D by blast
      have "sm \<subseteq>\<^sub>m ?sm" using None by (auto simp: map_le_def)
      moreover from r have "?sm \<subseteq>\<^sub>m sm'" by blast
      ultimately have le: "sm \<subseteq>\<^sub>m sm'" by (rule map_le_trans)
      from r have "start_state dfa' = start_state ?dfa" by blast
      then have st: "start_state dfa' = start_state dfa" by simp
      from r have "names_ok nfa sm' cnt' dfa'"
        "table_ok ord nfa sm' dfa' (D(S := D S \<union> set (c # chars)))" by blast+
      with le st show ?thesis by blast
    qed
  qed
qed

definition handled :: "string list \<Rightarrow> string set set \<Rightarrow> string set \<Rightarrow> string set" where
  "handled alphabet processed_sets S = (if S \<in> processed_sets then set alphabet else {})"

lemma subset_loop_inv:
  assumes "names_ok nfa sm cnt dfa" "table_ok ord nfa sm dfa (handled alphabet pr)"
    "set wl \<subseteq> dom sm" "dom sm \<subseteq> pr \<union> set wl"
  shows "\<exists>dfa' sm' cnt' pr'.
           subset_loop ord nfa alphabet (sm, cnt, wl, pr, dfa) = Inr dfa'
           \<and> names_ok nfa sm' cnt' dfa' \<and> table_ok ord nfa sm' dfa' (handled alphabet pr')
           \<and> dom sm' \<subseteq> pr' \<and> sm \<subseteq>\<^sub>m sm' \<and> start_state dfa' = start_state dfa"
  using assms
proof (induction ord nfa alphabet "(sm, cnt, wl, pr, dfa)" arbitrary: sm cnt wl pr dfa
    rule: subset_loop.induct)
  case (1 ord nfa alphabet sm cnt pr dfa)
  have "subset_loop ord nfa alphabet (sm, cnt, [], pr, dfa) = Inr dfa"
    by (simp add: subset_loop.simps)
  moreover have "dom sm \<subseteq> pr" using 1(4) by simp
  moreover have "sm \<subseteq>\<^sub>m sm" by simp
  ultimately show ?case using 1(1,2) by blast
next
  case (2 ord nfa alphabet sm cnt S wl pr dfa)
  from 2(5) obtain n where n: "sm S = Some n" by auto
  show ?case
  proof (cases "S \<in> pr")
    case True
    have a: "set wl \<subseteq> dom sm" "dom sm \<subseteq> pr \<union> set wl" using 2(5,6) True by auto
    have "subset_loop ord nfa alphabet (sm, cnt, S # wl, pr, dfa)
        = subset_loop ord nfa alphabet (sm, cnt, wl, pr, dfa)"
      using n True by (simp add: subset_loop.simps)
    with 2(1) [OF n True 2(3,4) a] show ?thesis by simp
  next
    case False
    obtain sm1 cnt1 wl1 dfa1 where
      e: "expand ord nfa S n alphabet (sm, cnt, wl, dfa) = (sm1, cnt1, wl1, dfa1)"
      by (cases "expand ord nfa S n alphabet (sm, cnt, wl, dfa)") auto
    have D: "(handled alphabet pr)(S := handled alphabet pr S \<union> set alphabet)
        = handled alphabet (insert S pr)"
      using False by (auto simp: handled_def fun_eq_iff)
    from expand_inv [OF 2(3,4) n e]
    have i: "names_ok nfa sm1 cnt1 dfa1" "table_ok ord nfa sm1 dfa1 (handled alphabet (insert S pr))"
      "sm \<subseteq>\<^sub>m sm1" "start_state dfa1 = start_state dfa"
      unfolding D by simp_all
    from expand_grows [OF e] obtain new where
      new: "wl1 = wl @ new" "dom sm1 = dom sm \<union> set new" by blast
    have a: "set wl1 \<subseteq> dom sm1" "dom sm1 \<subseteq> insert S pr \<union> set wl1"
      using new 2(5,6) by auto
    have "subset_loop ord nfa alphabet (sm, cnt, S # wl, pr, dfa)
        = subset_loop ord nfa alphabet (sm1, cnt1, wl1, insert S pr, dfa1)"
      using n False e by (simp add: subset_loop.simps)
    moreover from 2(2) [OF n False e [symmetric] refl refl i(1,2) a]
    obtain dfa' sm' cnt' pr' where
      "subset_loop ord nfa alphabet (sm1, cnt1, wl1, insert S pr, dfa1) = Inr dfa'"
      "names_ok nfa sm' cnt' dfa'" "table_ok ord nfa sm' dfa' (handled alphabet pr')"
      "dom sm' \<subseteq> pr'" "sm1 \<subseteq>\<^sub>m sm'" "start_state dfa' = start_state dfa1"
      by blast
    moreover have "sm \<subseteq>\<^sub>m sm'" using i(3) \<open>sm1 \<subseteq>\<^sub>m sm'\<close> by (rule map_le_trans)
    ultimately show ?thesis using i(4) by (simp; blast)
  qed
qed

lemma accepts_from_closure:
  assumes "finite S"
  shows "nfa_accepts_from nfa (get_epsilon_closure ord nfa S) w = nfa_accepts_from nfa S w"
proof
  assume "nfa_accepts_from nfa (get_epsilon_closure ord nfa S) w"
  then obtain q3 r where q3: "q3 \<in> get_epsilon_closure ord nfa S" "nfa_reaches nfa q3 w r"
    "r \<in> final_states nfa"
    unfolding nfa_accepts_from_def by blast
  from q3(1) obtain q where q: "q \<in> S" "(silent_edge nfa)\<^sup>*\<^sup>* q q3"
    unfolding closure_silent_star [OF assms] by blast
  from q(2) q3(2) have "nfa_reaches nfa q w r" by (rule reaches_silent_star)
  with q(1) q3(3) show "nfa_accepts_from nfa S w" unfolding nfa_accepts_from_def by blast
next
  assume "nfa_accepts_from nfa S w"
  then show "nfa_accepts_from nfa (get_epsilon_closure ord nfa S) w"
    unfolding nfa_accepts_from_def using get_epsilon_closure_superset [of S ord nfa] by blast
qed

lemma accepts_from_empty: "\<not> nfa_accepts_from nfa {} w"
  by (simp add: nfa_accepts_from_def)

lemma dfa_simulates:
  assumes nm: "names_ok nfa sm cnt dfa" and t: "table_ok ord nfa sm dfa (handled alphabet pr)"
    and pr: "dom sm \<subseteq> pr" and al: "set alphabet = nfa_alphabet nfa"
    and S: "sm S = Some n"
  shows "dfa_accepts_from dfa n w = nfa_accepts_from nfa S w"
  using S
proof (induction w arbitrary: S n)
  case Nil
  from nm have n2: "\<And>T U m. sm T = Some m \<Longrightarrow> sm U = Some m \<Longrightarrow> T = U"
    and n3: "final_states dfa = {n. \<exists>S. sm S = Some n \<and> (\<exists>s \<in> S. s \<in> final_states nfa)}"
    and n5: "\<And>T m. sm T = Some m \<Longrightarrow> epsilon_closed nfa T"
    unfolding names_ok_def by blast+
  have "n \<in> final_states dfa \<longleftrightarrow> (\<exists>s \<in> S. s \<in> final_states nfa)"
  proof
    assume "n \<in> final_states dfa"
    then obtain T where T: "sm T = Some n" "\<exists>s \<in> T. s \<in> final_states nfa" unfolding n3 by blast
    from n2 [OF T(1) Nil] T(2) show "\<exists>s \<in> S. s \<in> final_states nfa" by simp
  next
    assume "\<exists>s \<in> S. s \<in> final_states nfa"
    with Nil show "n \<in> final_states dfa" unfolding n3 by blast
  qed
  then show ?case using accepts_from_Nil [OF n5 [OF Nil]] by simp
next
  case (Cons c w)
  from nm have n5: "\<And>T m. sm T = Some m \<Longrightarrow> epsilon_closed nfa T"
    unfolding names_ok_def by blast
  from t have t1: "\<And>T m c'. sm T = Some m \<Longrightarrow> target_of dfa m c' =
      (if c' \<in> handled alphabet pr T \<and> subset_step ord nfa T c' \<noteq> {}
       then sm (subset_step ord nfa T c') else None)"
    and t2: "\<And>T m c'. sm T = Some m \<Longrightarrow> c' \<in> handled alphabet pr T
      \<Longrightarrow> subset_step ord nfa T c' \<noteq> {} \<Longrightarrow> sm (subset_step ord nfa T c') \<noteq> None"
    unfolding table_ok_def by blast+
  have "S \<in> pr" using Cons.prems pr by blast
  then have h: "handled alphabet pr S = nfa_alphabet nfa" by (simp add: handled_def al)
  have nfa: "nfa_accepts_from nfa S (c # w)
      \<longleftrightarrow> \<not> is_epsilon_label c \<and> nfa_accepts_from nfa (subset_step ord nfa S c) w"
    using n5 [OF Cons.prems] by (rule accepts_from_Cons)
  show ?case
  proof (cases "c \<in> nfa_alphabet nfa \<and> subset_step ord nfa S c \<noteq> {}")
    case True
    with t2 [OF Cons.prems, of c] h obtain m where m: "sm (subset_step ord nfa S c) = Some m"
      by auto
    have "target_of dfa n c = Some m" using t1 [OF Cons.prems, of c] True h m by simp
    then have "dfa_accepts_from dfa n (c # w) = dfa_accepts_from dfa m w" by simp
    also have "\<dots> = nfa_accepts_from nfa (subset_step ord nfa S c) w" using m by (rule Cons.IH)
    finally show ?thesis using nfa True by (simp add: nfa_alphabet_iff)
  next
    case False
    have "target_of dfa n c = None" using t1 [OF Cons.prems, of c] False h by auto
    then have d: "\<not> dfa_accepts_from dfa n (c # w)" by simp
    have "\<not> nfa_accepts_from nfa S (c # w)"
    proof (cases "is_epsilon_label c")
      case True
      then show ?thesis using nfa by simp
    next
      case ne: False
      have "subset_step ord nfa S c = {}"
      proof (cases "c \<in> nfa_alphabet nfa")
        case True
        with False show ?thesis by simp
      next
        case False
        with ne have "move nfa S c = {}" by (rule move_outside_alphabet)
        then show ?thesis by (simp add: subset_step_def closure_empty)
      qed
      then show ?thesis using nfa by (simp add: accepts_from_empty)
    qed
    with d show ?thesis by simp
  qed
qed

lemma state_name_of_0: "state_name_of 0 = ''S0''"
  by code_simp

lemma convert_inv:
  "\<exists>dfa sm cnt pr.
     convert_nfa_to_dfa ord nfa = Inr dfa
     \<and> names_ok nfa sm cnt dfa
     \<and> table_ok ord nfa sm dfa (handled (sorted_list_of_set (nfa_alphabet nfa)) pr)
     \<and> dom sm \<subseteq> pr
     \<and> sm (get_epsilon_closure ord nfa (set_option (start_state nfa))) = Some ''S0''
     \<and> start_state dfa = Some ''S0''"
proof -
  define start where "start = get_epsilon_closure ord nfa (set_option (start_state nfa))"
  define fin where "fin \<longleftrightarrow> (\<exists>s \<in> start. s \<in> final_states nfa)"
  define dfa0 where "dfa0 = add_state (DFA\<lparr>start_state := Some ''S0''\<rparr>) ''S0'' fin"
  define sm0 :: "string set \<rightharpoonup> string" where "sm0 = [start \<mapsto> ''S0'']"
  define alphabet where "alphabet = sorted_list_of_set (nfa_alphabet nfa)"
  have c: "convert_nfa_to_dfa ord nfa = subset_loop ord nfa alphabet (sm0, 1, [start], {}, dfa0)"
    by (simp add: convert_nfa_to_dfa_def Let_def start_def fin_def dfa0_def sm0_def alphabet_def)
  have sm0: "sm0 T = Some m \<longleftrightarrow> T = start \<and> m = ''S0''" for T m
    by (auto simp: sm0_def split: if_splits)
  have tg: "target_of dfa0 q c = None" for q c
    unfolding dfa0_def target_of_add_state by (simp add: target_of_def DFA_def)
  have closed: "epsilon_closed nfa start"
    unfolding start_def by (rule get_epsilon_closure_closed) simp
  have "final_states dfa0 = {n. \<exists>S. sm0 S = Some n \<and> (\<exists>s \<in> S. s \<in> final_states nfa)}"
    by (auto simp: dfa0_def DFA_def sm0 fin_def)
  moreover have "\<exists>i < 1. m = state_name_of i" if "sm0 T = Some m" for T m
    using that by (simp add: sm0 state_name_of_0)
  ultimately have names: "names_ok nfa sm0 1 dfa0"
    unfolding names_ok_def using tg closed by (auto simp: sm0)
  have table: "table_ok ord nfa sm0 dfa0 (handled alphabet {})"
    unfolding table_ok_def by (simp add: tg handled_def)
  have "set [start] \<subseteq> dom sm0" "dom sm0 \<subseteq> {} \<union> set [start]" by (auto simp: sm0_def)
  from subset_loop_inv [OF names table this] obtain dfa sm cnt pr where
    r: "subset_loop ord nfa alphabet (sm0, 1, [start], {}, dfa0) = Inr dfa"
      "names_ok nfa sm cnt dfa" "table_ok ord nfa sm dfa (handled alphabet pr)"
      "dom sm \<subseteq> pr" "sm0 \<subseteq>\<^sub>m sm" "start_state dfa = start_state dfa0"
    by blast
  have "sm0 start = Some ''S0''" by (simp add: sm0)
  with r(5) have "sm start = Some ''S0''" by (auto simp: map_le_def dom_def)
  moreover have "start_state dfa = Some ''S0''" using r(6) by (simp add: dfa0_def)
  ultimately show ?thesis using c r(1-4) unfolding start_def alphabet_def by metis
qed

text \<open>
  C1. For every NFA, \<open>convert_nfa_to_dfa\<close> returns a DFA (it raises nothing and its loop
  ends), and this DFA accepts a string if and only if the NFA accepts it: the NFA by
  paths that take epsilon edges silently, the DFA by its partial table, where a symbol
  without a transition rejects. This holds for every string, in particular for the
  strings over the non-epsilon alphabet of the NFA.
\<close>

theorem subset_construction_language:
  "\<exists>dfa. convert_nfa_to_dfa ord nfa = Inr dfa \<and> (\<forall>w. dfa_accepts dfa w = nfa_accepts nfa w)"
proof -
  from convert_inv [of ord nfa] obtain dfa sm cnt pr where
    r: "convert_nfa_to_dfa ord nfa = Inr dfa" "names_ok nfa sm cnt dfa"
      "table_ok ord nfa sm dfa (handled (sorted_list_of_set (nfa_alphabet nfa)) pr)"
      "dom sm \<subseteq> pr"
      "sm (get_epsilon_closure ord nfa (set_option (start_state nfa))) = Some ''S0''"
      "start_state dfa = Some ''S0''"
    by blast
  have al: "set (sorted_list_of_set (nfa_alphabet nfa)) = nfa_alphabet nfa"
    using finite_nfa_alphabet by simp
  have "dfa_accepts dfa w = nfa_accepts nfa w" for w
  proof -
    have "dfa_accepts dfa w = dfa_accepts_from dfa ''S0'' w" using r(6) by (simp add: dfa_accepts_def)
    also have "\<dots> = nfa_accepts_from nfa (get_epsilon_closure ord nfa (set_option (start_state nfa))) w"
      using r(2,3,4) al r(5) by (rule dfa_simulates)
    also have "\<dots> = nfa_accepts_from nfa (set_option (start_state nfa)) w"
      by (rule accepts_from_closure) simp
    finally show ?thesis by (simp add: nfa_accepts_def)
  qed
  with r(1) show ?thesis by blast
qed

lemma scenario_nfa_converted:
  "convert_nfa_to_dfa sorted_list_of_set scenario_nfa = Inr scenario_dfa"
  by code_simp

theorem subset_construction_language_witness:
  "convert_nfa_to_dfa sorted_list_of_set scenario_nfa = Inr scenario_dfa
   \<and> dfa_accepts scenario_dfa [''a'', ''a'', ''b'']
   \<and> nfa_accepts scenario_nfa [''a'', ''a'', ''b'']"
proof -
  have d: "dfa_accepts scenario_dfa [''a'', ''a'', ''b'']" by code_simp
  from subset_construction_language [of sorted_list_of_set scenario_nfa]
  have "dfa_accepts scenario_dfa [''a'', ''a'', ''b''] = nfa_accepts scenario_nfa [''a'', ''a'', ''b'']"
    unfolding scenario_nfa_converted by simp
  with d show ?thesis using scenario_nfa_converted by simp
qed

section \<open>The pipeline \<open>BuildDFA\<close>\<close>
















section \<open>Epsilon spellings from the document to the algorithms\<close>

text \<open>
  The transitions that a document spells out: under a key other than \<open>startingState\<close>, a
  state object maps a symbol other than \<open>isTerminatingState\<close> to one target or to a list
  of targets.
\<close>

definition document_edge :: "document \<Rightarrow> string \<Rightarrow> string \<Rightarrow> string \<Rightarrow> bool" where
  "document_edge data q symbol q' \<longleftrightarrow>
     q \<noteq> ''startingState'' \<and> symbol \<noteq> ''isTerminatingState''
     \<and> (case map_of data q of
           Some (JObj state_data) \<Rightarrow>
             (case map_of state_data symbol of
                Some (FStr t) \<Rightarrow> q' = t
              | Some (FList ts) \<Rightarrow> q' \<in> set ts
              | _ \<Rightarrow> False)
         | _ \<Rightarrow> False)"

text \<open>Every symbol that is a key of some row of an NFA.\<close>

definition nfa_symbols :: "nfa \<Rightarrow> string set" where
  "nfa_symbols nfa = (\<Union>(src, trans) \<in> set (items (transitions nfa)). set (keys trans))"

definition row_edge :: "(string \<times> field) list \<Rightarrow> string \<Rightarrow> string \<Rightarrow> bool" where
  "row_edge row symbol q' \<longleftrightarrow>
     symbol \<noteq> ''isTerminatingState''
     \<and> (\<exists>v. (symbol, v) \<in> set row \<and> (v = FStr q' \<or> (\<exists>ts. v = FList ts \<and> q' \<in> set ts)))"

definition nonempty_rows :: "nfa \<Rightarrow> bool" where
  "nonempty_rows n \<longleftrightarrow> (\<forall>q c. targets_of n q c \<noteq> Some [])"

lemma nfa_edge_targets_of:
  "nfa_edge n q c q' \<longleftrightarrow> (\<exists>ts. targets_of n q c = Some ts \<and> q' \<in> set ts)"
proof (cases "map_of (transitions n) q")
  case None
  then show ?thesis by (simp add: nfa_edge_def targets_of_def)
next
  case (Some row)
  then show ?thesis by (simp add: nfa_edge_def targets_of_def)
qed

lemma nfa_edge_add_state [simp]: "nfa_edge (add_state n p f) q c q' = nfa_edge n q c q'"
  by (simp add: nfa_edge_targets_of)

lemma nfa_edge_add_transition:
  "nfa_edge (nfa_add_transition n p s t) q c q' \<longleftrightarrow> nfa_edge n q c q' \<or> (q = p \<and> c = s \<and> q' = t)"
proof (cases "q = p \<and> c = s")
  case False
  have "targets_of (nfa_add_transition n p s t) q c = targets_of n q c"
    unfolding targets_of_add_transition using False by (rule if_not_P)
  with False show ?thesis unfolding nfa_edge_targets_of by auto
next
  case True
  show ?thesis
  proof (cases "targets_of n p s")
    case None
    with True show ?thesis unfolding nfa_edge_targets_of
      by (simp add: targets_of_add_transition)
  next
    case (Some ts)
    with True show ?thesis unfolding nfa_edge_targets_of
      by (auto simp: targets_of_add_transition)
  qed
qed

lemma nonempty_rows_add_state: "nonempty_rows n \<Longrightarrow> nonempty_rows (add_state n p f)"
  by (simp add: nonempty_rows_def)

lemma nonempty_rows_add_transition:
  "nonempty_rows n \<Longrightarrow> nonempty_rows (nfa_add_transition n p s t)"
  unfolding nonempty_rows_def
  by (auto simp: targets_of_add_transition split: option.splits if_splits)

lemma fold_add_transition:
  "(nfa_edge (foldl (\<lambda>n t_state. nfa_add_transition n p s t_state) n ts) q c q'
      \<longleftrightarrow> nfa_edge n q c q' \<or> (q = p \<and> c = s \<and> q' \<in> set ts))
   \<and> (nonempty_rows n \<longrightarrow> nonempty_rows (foldl (\<lambda>n t_state. nfa_add_transition n p s t_state) n ts))"
proof (induction ts arbitrary: n)
  case Nil
  show ?case by simp
next
  case (Cons t ts)
  from Cons.IH [of "nfa_add_transition n p s t"] show ?case
    by (auto simp: nfa_edge_add_transition nonempty_rows_add_transition)
qed

lemma parse_transitions_edges:
  assumes "parse_transitions p row n = Inr n'"
  shows "(\<forall>q c q'. nfa_edge n' q c q' \<longleftrightarrow> nfa_edge n q c q' \<or> (q = p \<and> row_edge row c q'))
       \<and> (nonempty_rows n \<longrightarrow> nonempty_rows n')"
  using assms
proof (induction row arbitrary: n)
  case Nil
  then show ?case by (simp add: row_edge_def)
next
  case (Cons e row)
  obtain symbol target where e: "e = (symbol, target)" by (cases e)
  have skip: "row_edge (e # row) c q' = row_edge row c q'" if "symbol = ''isTerminatingState''" for c q'
    using that by (auto simp: row_edge_def e)
  show ?case
  proof (cases "symbol = ''isTerminatingState''")
    case True
    with Cons.prems have "parse_transitions p row n = Inr n'" by (simp add: e)
    from Cons.IH [OF this] show ?thesis by (simp add: skip [OF True])
  next
    case False
    show ?thesis
    proof (cases target)
      case (FBool b)
      with False Cons.prems show ?thesis by (simp add: e)
    next
      case (FStr t)
      let ?n = "nfa_add_transition n p symbol t"
      from FStr False Cons.prems have "parse_transitions p row ?n = Inr n'" by (simp add: e)
      from Cons.IH [OF this]
      have ih: "\<And>q c q'. nfa_edge n' q c q' \<longleftrightarrow> nfa_edge ?n q c q' \<or> (q = p \<and> row_edge row c q')"
        and ne: "nonempty_rows ?n \<longrightarrow> nonempty_rows n'"
        by blast+
      have r: "row_edge (e # row) c q' \<longleftrightarrow> (c = symbol \<and> q' = t) \<or> row_edge row c q'" for c q'
        using False by (auto simp: row_edge_def e FStr)
      have "nfa_edge n' q c q' \<longleftrightarrow> nfa_edge n q c q' \<or> (q = p \<and> row_edge (e # row) c q')" for q c q'
        unfolding ih r nfa_edge_add_transition by blast
      moreover have "nonempty_rows n \<longrightarrow> nonempty_rows n'"
        using ne nonempty_rows_add_transition by blast
      ultimately show ?thesis by blast
    next
      case (FList ts)
      let ?n = "foldl (\<lambda>n t_state. nfa_add_transition n p symbol t_state) n ts"
      from FList False Cons.prems have "parse_transitions p row ?n = Inr n'" by (simp add: e)
      from Cons.IH [OF this]
      have ih: "\<And>q c q'. nfa_edge n' q c q' \<longleftrightarrow> nfa_edge ?n q c q' \<or> (q = p \<and> row_edge row c q')"
        and ne: "nonempty_rows ?n \<longrightarrow> nonempty_rows n'"
        by blast+
      have f: "nfa_edge ?n q c q' \<longleftrightarrow> nfa_edge n q c q' \<or> (q = p \<and> c = symbol \<and> q' \<in> set ts)"
        for q c q'
        using fold_add_transition [of p symbol n ts q c q'] by blast
      have fne: "nonempty_rows n \<longrightarrow> nonempty_rows ?n"
        using fold_add_transition [of p symbol n ts] by blast
      have r: "row_edge (e # row) c q' \<longleftrightarrow> (c = symbol \<and> q' \<in> set ts) \<or> row_edge row c q'" for c q'
        using False by (auto simp: row_edge_def e FList)
      have "nfa_edge n' q c q' \<longleftrightarrow> nfa_edge n q c q' \<or> (q = p \<and> row_edge (e # row) c q')" for q c q'
        unfolding ih r f by blast
      moreover have "nonempty_rows n \<longrightarrow> nonempty_rows n'" using ne fne by blast
      ultimately show ?thesis by blast
    qed
  qed
qed

lemma parse_states_edges:
  assumes "parse_states ds n = Inr n'"
  shows "(\<forall>q c q'. nfa_edge n' q c q' \<longleftrightarrow>
            nfa_edge n q c q'
            \<or> (q \<noteq> ''startingState'' \<and> (\<exists>sd. (q, JObj sd) \<in> set ds \<and> row_edge (items sd) c q')))
       \<and> (nonempty_rows n \<longrightarrow> nonempty_rows n')"
  using assms
proof (induction ds arbitrary: n)
  case Nil
  then show ?case by simp
next
  case (Cons e ds)
  obtain key val where e: "e = (key, val)" by (cases e)
  show ?case
  proof (cases "key = ''startingState''")
    case True
    with Cons.prems have "parse_states ds n = Inr n'" by (simp add: e)
    from Cons.IH [OF this] True show ?thesis by (auto simp: e)
  next
    case False
    from False Cons.prems obtain sd where val: "val = JObj sd"
      by (cases val) (simp_all add: e)
    define n0 where "n0 = add_state n key (truthy (case map_of sd ''isTerminatingState'' of
        None \<Rightarrow> FBool False | Some v \<Rightarrow> v))"
    from False Cons.prems have
      c: "(case parse_transitions key (items sd) n0 of
             Inl e \<Rightarrow> Inl e | Inr nfa' \<Rightarrow> parse_states ds nfa') = Inr n'"
      by (simp add: e val n0_def Let_def)
    obtain n1 where
      n1: "parse_transitions key (items sd) n0 = Inr n1" "parse_states ds n1 = Inr n'"
    proof (cases "parse_transitions key (items sd) n0")
      case (Inl x)
      with c show ?thesis by simp
    next
      case (Inr n1)
      with c that show ?thesis by simp
    qed
    from parse_transitions_edges [OF n1(1)]
    have e1: "\<And>q c q'. nfa_edge n1 q c q' \<longleftrightarrow> nfa_edge n q c q' \<or> (q = key \<and> row_edge (items sd) c q')"
      and ne1: "nonempty_rows n \<longrightarrow> nonempty_rows n1"
      by (simp_all add: n0_def nonempty_rows_add_state)
    from Cons.IH [OF n1(2)]
    have e2: "\<And>q c q'. nfa_edge n' q c q' \<longleftrightarrow>
          nfa_edge n1 q c q'
          \<or> (q \<noteq> ''startingState'' \<and> (\<exists>sd. (q, JObj sd) \<in> set ds \<and> row_edge (items sd) c q'))"
      and ne2: "nonempty_rows n1 \<longrightarrow> nonempty_rows n'"
      by blast+
    have m: "(\<exists>sd'. (q, JObj sd') \<in> set (e # ds) \<and> row_edge (items sd') c q')
        \<longleftrightarrow> (q = key \<and> row_edge (items sd) c q')
            \<or> (\<exists>sd'. (q, JObj sd') \<in> set ds \<and> row_edge (items sd') c q')" for q c q'
      unfolding e val by auto
    have "nfa_edge n' q c q' \<longleftrightarrow>
        nfa_edge n q c q'
        \<or> (q \<noteq> ''startingState'' \<and> (\<exists>sd. (q, JObj sd) \<in> set (e # ds) \<and> row_edge (items sd) c q'))"
      for q c q'
      unfolding m e2 e1 using False by blast
    moreover have "nonempty_rows n \<longrightarrow> nonempty_rows n'" using ne1 ne2 by blast
    ultimately show ?thesis by blast
  qed
qed

lemma document_edge_iff:
  "document_edge data q c q' \<longleftrightarrow>
     q \<noteq> ''startingState'' \<and> (\<exists>sd. (q, JObj sd) \<in> set (items data) \<and> row_edge (items sd) c q')"
proof -
  have r: "row_edge (items sd) c q' \<longleftrightarrow>
      c \<noteq> ''isTerminatingState''
      \<and> (case map_of sd c of Some (FStr t) \<Rightarrow> q' = t | Some (FList ts) \<Rightarrow> q' \<in> set ts
          | _ \<Rightarrow> False)" for sd
  proof (cases "map_of sd c")
    case None
    then show ?thesis by (simp add: row_edge_def in_items_iff)
  next
    case (Some v)
    then show ?thesis by (cases v) (auto simp: row_edge_def in_items_iff)
  qed
  show ?thesis
  proof (cases "map_of data q")
    case None
    then show ?thesis by (simp add: document_edge_def in_items_iff)
  next
    case (Some v)
    then show ?thesis
      by (cases v) (auto simp: document_edge_def in_items_iff r)
  qed
qed

lemma deserialized_edges:
  assumes "deserialize_nfa_json (Some data) = Inr nfa"
  shows "nfa_edge nfa q c q' = document_edge data q c q'" "nonempty_rows nfa"
proof -
  have "\<exists>start. parse_states (items data) (NFA start) = Inr nfa"
  proof (cases "map_of data ''startingState''")
    case None
    with assms show ?thesis by (simp add: deserialize_nfa_json_def)
  next
    case (Some v)
    show ?thesis
    proof (cases v)
      case JNull
      with Some assms have "parse_states (items data) (NFA None) = Inr nfa"
        by (simp add: deserialize_nfa_json_def)
      then show ?thesis by (rule exI)
    next
      case (JStr start)
      with Some assms have "parse_states (items data) (NFA (Some start)) = Inr nfa"
        by (simp add: deserialize_nfa_json_def)
      then show ?thesis by (rule exI)
    next
      case (JObj sd)
      with Some assms show ?thesis by (simp add: deserialize_nfa_json_def)
    qed
  qed
  then obtain start where p: "parse_states (items data) (NFA start) = Inr nfa" ..
  have none: "targets_of (NFA start) p c = None" for p c by (simp add: targets_of_def NFA_def)
  then have 0: "nfa_edge (NFA start) p c t = False" for p c t by (simp add: nfa_edge_targets_of)
  have ne: "nonempty_rows (NFA start)" by (simp add: nonempty_rows_def none)
  from parse_states_edges [OF p]
  have e: "nfa_edge nfa q c q' \<longleftrightarrow>
      nfa_edge (NFA start) q c q'
      \<or> (q \<noteq> ''startingState'' \<and> (\<exists>sd. (q, JObj sd) \<in> set (items data) \<and> row_edge (items sd) c q'))"
    and n: "nonempty_rows (NFA start) \<longrightarrow> nonempty_rows nfa"
    by blast+
  show "nfa_edge nfa q c q' = document_edge data q c q'"
    unfolding e 0 document_edge_iff by simp
  from n ne show "nonempty_rows nfa" by (rule mp)
qed

lemma targets_of_iff:
  "targets_of n q c = Some ts \<longleftrightarrow>
     (\<exists>row. map_of (transitions n) q = Some row \<and> map_of row c = Some ts)"
  by (cases "map_of (transitions n) q") (simp_all add: targets_of_def)

lemma deserialized_alphabet:
  assumes "deserialize_nfa_json (Some data) = Inr nfa"
  shows "nfa_alphabet nfa = {symbol. \<not> is_epsilon_label symbol \<and> (\<exists>q q'. document_edge data q symbol q')}"
proof -
  have ne: "targets_of nfa q c \<noteq> Some []" for q c
    using deserialized_edges(2) [OF assms] by (simp add: nonempty_rows_def)
  have "(\<exists>q row ts. map_of (transitions nfa) q = Some row \<and> map_of row c = Some ts)
      \<longleftrightarrow> (\<exists>q q'. document_edge data q c q')" for c
  proof
    assume "\<exists>q row ts. map_of (transitions nfa) q = Some row \<and> map_of row c = Some ts"
    then obtain q ts where ts: "targets_of nfa q c = Some ts" unfolding targets_of_iff by blast
    with ne [of q c] have "ts \<noteq> []" by auto
    then obtain q' where "q' \<in> set ts" by (cases ts) auto
    with ts have "nfa_edge nfa q c q'" unfolding nfa_edge_targets_of by blast
    then have "document_edge data q c q'" by (simp only: deserialized_edges(1) [OF assms])
    then show "\<exists>q q'. document_edge data q c q'" by blast
  next
    assume "\<exists>q q'. document_edge data q c q'"
    then obtain q q' where "document_edge data q c q'" by blast
    then have "nfa_edge nfa q c q'" by (simp only: deserialized_edges(1) [OF assms])
    then obtain ts where "targets_of nfa q c = Some ts" unfolding nfa_edge_targets_of by blast
    then show "\<exists>q row ts. map_of (transitions nfa) q = Some row \<and> map_of row c = Some ts"
      unfolding targets_of_iff by blast
  qed
  then show ?thesis unfolding set_eq_iff nfa_alphabet_iff by simp
qed

text \<open>
  C3, as the code has it. No normalization happens at parse time: the NFA that
  \<open>deserialize_nfa_json\<close> returns has exactly the transitions that the document spells
  out, each under the symbol as the document spells it. Every downstream algorithm tests
  the four surface spellings itself: the epsilon closure of a set is what is reachable
  through the transitions of the document whose symbol passes the test (the empty
  string, \<open>epsilon\<close> in any letter case, the letter epsilon, its mis-encoded variant), and
  the alphabet of the subset construction is the set of the symbols of the document that
  fail it.
\<close>

theorem symbols_kept_as_spelled:
  assumes "deserialize_nfa_json (Some data) = Inr nfa" "finite S"
  shows "(\<forall>q symbol q'. nfa_edge nfa q symbol q' = document_edge data q symbol q')
       \<and> get_epsilon_closure ord nfa S =
           {r. \<exists>q \<in> S. (\<lambda>p p'. \<exists>symbol. is_epsilon_label symbol \<and> document_edge data p symbol p')\<^sup>*\<^sup>* q r}
       \<and> nfa_alphabet nfa =
           {symbol. \<not> is_epsilon_label symbol \<and> (\<exists>q q'. document_edge data q symbol q')}"
proof -
  have e: "nfa_edge nfa q symbol q' = document_edge data q symbol q'" for q symbol q'
    using assms(1) by (rule deserialized_edges(1))
  have "silent_edge nfa = (\<lambda>p p'. \<exists>symbol. is_epsilon_label symbol \<and> document_edge data p symbol p')"
    unfolding fun_eq_iff silent_edge_def e by simp
  then have "get_epsilon_closure ord nfa S =
      {r. \<exists>q \<in> S. (\<lambda>p p'. \<exists>symbol. is_epsilon_label symbol \<and> document_edge data p symbol p')\<^sup>*\<^sup>* q r}"
    using closure_silent_star [OF assms(2), of ord nfa] by simp
  with e deserialized_alphabet [OF assms(1)] show ?thesis by blast
qed

text \<open>
  C3 as stated fails: a document that spells epsilon in four ways. The NFA returned keeps
  the four spellings as four different transition symbols, the closure of \<open>{p}\<close> follows
  all four, and the alphabet leaves all four out.
\<close>

definition spelled_document :: document where
  "spelled_document =
     [(''startingState'', JStr ''p''),
      (''p'', JObj [(''isTerminatingState'', FBool False), ('''', FStr ''q''),
                    (''Epsilon'', FStr ''r''), (''x'', FStr ''p'')]),
      (''q'', JObj [(''isTerminatingState'', FBool False), ([CHR 0xCE, CHR 0xB5], FStr ''s'')]),
      (''r'', JObj [(''isTerminatingState'', FBool False),
                    ([CHR 0xC3, CHR 0x8E, CHR 0xC2, CHR 0xB5], FStr ''s'')]),
      (''s'', JObj [(''isTerminatingState'', FBool True)])]"

definition spelled_nfa :: nfa where
  "spelled_nfa =
     \<lparr>start_state = Some ''p'', states = {''p'', ''q'', ''r'', ''s''}, final_states = {''s''},
      transitions =
        [(''p'', [('''', [''q'']), (''Epsilon'', [''r'']), (''x'', [''p''])]),
         (''q'', [([CHR 0xCE, CHR 0xB5], [''s''])]),
         (''r'', [([CHR 0xC3, CHR 0x8E, CHR 0xC2, CHR 0xB5], [''s''])]),
         (''s'', [])]\<rparr>"

theorem symbols_kept_as_spelled_counterexample:
  "deserialize_nfa_json (Some spelled_document) = Inr spelled_nfa
   \<and> {symbol \<in> nfa_symbols spelled_nfa. is_epsilon_label symbol}
       = {'''', ''Epsilon'', [CHR 0xCE, CHR 0xB5], [CHR 0xC3, CHR 0x8E, CHR 0xC2, CHR 0xB5]}
   \<and> card {symbol \<in> nfa_symbols spelled_nfa. is_epsilon_label symbol} = 4
   \<and> get_epsilon_closure sorted_list_of_set spelled_nfa {''p''} = {''p'', ''q'', ''r'', ''s''}
   \<and> nfa_alphabet spelled_nfa = {''x''}"
  by code_simp

lemma spelled_document_deserialized:
  "deserialize_nfa_json (Some spelled_document) = Inr spelled_nfa"
  by code_simp

theorem symbols_kept_as_spelled_witness:
  "deserialize_nfa_json (Some spelled_document) = Inr spelled_nfa \<and> finite {''p''}
   \<and> document_edge spelled_document ''p'' ''Epsilon'' ''r''
   \<and> nfa_edge spelled_nfa ''p'' ''Epsilon'' ''r''
   \<and> is_epsilon_label ''Epsilon''
   \<and> ''r'' \<in> get_epsilon_closure sorted_list_of_set spelled_nfa {''p''}
   \<and> ''Epsilon'' \<notin> nfa_alphabet spelled_nfa
   \<and> ''x'' \<in> nfa_alphabet spelled_nfa"
proof -
  have f: "finite {''p''}" by simp
  have d: "document_edge spelled_document ''p'' ''Epsilon'' ''r''" by code_simp
  have x: "document_edge spelled_document ''p'' ''x'' ''p''" by code_simp
  have l: "is_epsilon_label ''Epsilon''" "\<not> is_epsilon_label ''x''" by code_simp+
  from symbols_kept_as_spelled [OF spelled_document_deserialized f, of sorted_list_of_set]
  have e: "\<And>q symbol q'. nfa_edge spelled_nfa q symbol q' = document_edge spelled_document q symbol q'"
    and c: "get_epsilon_closure sorted_list_of_set spelled_nfa {''p''} =
        {r. \<exists>q \<in> {''p''}. (\<lambda>p p'. \<exists>symbol. is_epsilon_label symbol
             \<and> document_edge spelled_document p symbol p')\<^sup>*\<^sup>* q r}"
    and a: "nfa_alphabet spelled_nfa =
        {symbol. \<not> is_epsilon_label symbol \<and> (\<exists>q q'. document_edge spelled_document q symbol q')}"
    by blast+
  have "(\<lambda>p p'. \<exists>symbol. is_epsilon_label symbol
        \<and> document_edge spelled_document p symbol p')\<^sup>*\<^sup>* ''p'' ''r''"
    using d l(1) by blast
  then have r: "''r'' \<in> get_epsilon_closure sorted_list_of_set spelled_nfa {''p''}"
    unfolding c by blast
  have "''Epsilon'' \<notin> nfa_alphabet spelled_nfa" unfolding a using l(1) by blast
  moreover have "''x'' \<in> nfa_alphabet spelled_nfa" unfolding a using l(2) x by blast
  moreover have "nfa_edge spelled_nfa ''p'' ''Epsilon'' ''r''" unfolding e by (rule d)
  ultimately show ?thesis using spelled_document_deserialized f d l(1) r by blast
qed

end
